theory Spec2Isabelle
  imports Complex_Main "HOL-Library.Multiset" "HOL-Library.Code_Target_Nat"
begin

section \<open>Python values and the string methods the converters call\<close>

text \<open>
  A Python \<open>str\<close> is a sequence of Unicode code points; a code point is a natural
  number here (\<open>0x2022\<close>, the bullet, is \<open>8226\<close>) and \<open>len\<close> is \<open>length\<close>.
  ASCII literals are written as HOL strings and converted by \<open>ustr\<close>.
\<close>

type_synonym ustring = "nat list"

definition ustr :: "string \<Rightarrow> ustring" where
  "ustr s = map of_char s"

text \<open>
  The character properties behind \<open>str.strip\<close>, \<open>str.isupper\<close>, \<open>str.lower\<close> and the
  regular-expression classes \<open>\s\<close>, \<open>\d\<close>, \<open>\w\<close> come from the interpreter's Unicode
  database, which is not part of the repository. They are a parameter of every function
  that consults them: \<open>uc_isspace\<close> is \<open>Py_UNICODE_ISSPACE\<close> (used by \<open>strip\<close> and by
  \<open>\s\<close>), \<open>uc_isdecimal\<close> is the class \<open>\d\<close>, \<open>uc_isalnum\<close> with the underscore is
  \<open>\w\<close>, and \<open>uc_lower\<close> is \<open>str.lower\<close> on a whole string (its treatment of the
  final sigma depends on the neighbours of a character). The record carries the one
  other thing the interpreter decides for the converters: the order in which a set of
  strings is iterated, which follows the hashes of the strings and the history of the
  set. \<open>uc_hash_rank xs\<close> ranks the elements of the set built from the list \<open>xs\<close>;
  that set is iterated by ascending rank, so every order of its elements can occur.
\<close>

record unicode =
  uc_isspace :: "nat \<Rightarrow> bool"
  uc_isdecimal :: "nat \<Rightarrow> bool"
  uc_isalnum :: "nat \<Rightarrow> bool"
  uc_isupper :: "nat \<Rightarrow> bool"
  uc_islower :: "nat \<Rightarrow> bool"
  uc_istitle :: "nat \<Rightarrow> bool"
  uc_lower :: "ustring \<Rightarrow> ustring"
  uc_hash_rank :: "ustring list \<Rightarrow> ustring \<Rightarrow> nat"

text \<open>
  The database restricted to ASCII: every code point from 128 on has no property. All
  strings have the same rank, which leaves a set in the order of first occurrence.
\<close>

definition ascii_upper :: "nat \<Rightarrow> bool" where
  "ascii_upper c = (65 \<le> c \<and> c \<le> 90)"

definition ascii_lower :: "nat \<Rightarrow> bool" where
  "ascii_lower c = (97 \<le> c \<and> c \<le> 122)"

definition ascii_digit :: "nat \<Rightarrow> bool" where
  "ascii_digit c = (48 \<le> c \<and> c \<le> 57)"

definition ascii_space :: "nat \<Rightarrow> bool" where
  "ascii_space c = ((9 \<le> c \<and> c \<le> 13) \<or> (28 \<le> c \<and> c \<le> 32))"

definition ascii :: unicode where
  "ascii = \<lparr> uc_isspace = ascii_space,
             uc_isdecimal = ascii_digit,
             uc_isalnum = (\<lambda>c. ascii_upper c \<or> ascii_lower c \<or> ascii_digit c),
             uc_isupper = ascii_upper,
             uc_islower = ascii_lower,
             uc_istitle = (\<lambda>c. False),
             uc_lower = map (\<lambda>c. if ascii_upper c then c + 32 else c),
             uc_hash_rank = (\<lambda>xs t. 0) \<rparr>"

definition py_strip :: "unicode \<Rightarrow> ustring \<Rightarrow> ustring" where
  "py_strip u s = rev (dropWhile (uc_isspace u) (rev (dropWhile (uc_isspace u) s)))"

text \<open>
  \<open>str.isupper\<close>: no character is lowercase or titlecase and at least one is uppercase.
\<close>

definition py_isupper :: "unicode \<Rightarrow> ustring \<Rightarrow> bool" where
  "py_isupper u s =
     (\<not> list_ex (\<lambda>c. uc_islower u c \<or> uc_istitle u c) s \<and> list_ex (uc_isupper u) s)"

fun py_startswith :: "ustring \<Rightarrow> ustring \<Rightarrow> bool" where
  "py_startswith s [] = True"
| "py_startswith [] (p # ps) = False"
| "py_startswith (c # cs) (p # ps) = (c = p \<and> py_startswith cs ps)"

text \<open>The operator \<open>sub in s\<close> on strings.\<close>

fun py_contains :: "ustring \<Rightarrow> ustring \<Rightarrow> bool" where
  "py_contains sub [] = (sub = [])"
| "py_contains sub (c # cs) = (py_startswith (c # cs) sub \<or> py_contains sub cs)"

text \<open>\<open>sep.join(parts)\<close> and \<open>s.split(sep)\<close> for a one-character separator.\<close>

fun py_join :: "ustring \<Rightarrow> ustring list \<Rightarrow> ustring" where
  "py_join sep [] = []"
| "py_join sep [x] = x"
| "py_join sep (x # y # ys) = x @ sep @ py_join sep (y # ys)"

fun py_split :: "nat \<Rightarrow> ustring \<Rightarrow> ustring list" where
  "py_split sep [] = [[]]"
| "py_split sep (c # cs) =
     (if c = sep then [] # py_split sep cs
      else (case py_split sep cs of [] \<Rightarrow> [[c]] | w # ws \<Rightarrow> (c # w) # ws))"

text \<open>
  Coordinates and font sizes are Python floats; they are real numbers here, and
  \<open>round(x, nd)\<close> is the decimal with \<open>nd\<close> places nearest to \<open>x\<close>, a tie going to the
  even last digit. (The interpreter returns the float nearest to that decimal, which
  identifies and orders the results the same way.)
\<close>

definition py_round :: "nat \<Rightarrow> real \<Rightarrow> real" where
  "py_round nd x =
     (let s = x * 10 ^ nd;
          f = \<lfloor>s\<rfloor>;
          d = s - of_int f;
          n = (if d < 1 / 2 then f else if 1 / 2 < d then f + 1
               else if even f then f else f + 1)
      in of_int n / 10 ^ nd)"

text \<open>\<open>int(x)\<close> on a float truncates towards zero.\<close>

definition py_int :: "real \<Rightarrow> int" where
  "py_int x = (if 0 \<le> x then \<lfloor>x\<rfloor> else \<lceil>x\<rceil>)"

datatype py_error = IndexError | ZeroDivisionError | ValueError | OpenError | SaveError

section \<open>Regular expressions\<close>

text \<open>
  The patterns of the source are values of \<open>rx\<close>. \<open>rx_run\<close> is a backtracking matcher:
  from a cursor (the character before the position, and the rest of the input) it
  returns every cursor at which a match can end, in the order in which the \<open>re\<close> module
  tries them (a repetition first takes as many rounds as it can). The first argument is
  the word-character test of \<open>\b\<close>.
\<close>

datatype rx = Cls "nat \<Rightarrow> bool" | Cat rx rx | Star rx | Opt rx | WordB

type_synonym cursor = "nat option \<times> ustring"

definition at_boundary :: "(nat \<Rightarrow> bool) \<Rightarrow> cursor \<Rightarrow> bool" where
  "at_boundary w k =
     ((case fst k of None \<Rightarrow> False | Some p \<Rightarrow> w p)
        \<noteq> (case snd k of [] \<Rightarrow> False | c # _ \<Rightarrow> w c))"

fun rx_run :: "(nat \<Rightarrow> bool) \<Rightarrow> rx \<Rightarrow> cursor \<Rightarrow> cursor list" where
  "rx_run w (Cls p) k =
     (case snd k of [] \<Rightarrow> [] | c # cs \<Rightarrow> if p c then [(Some c, cs)] else [])"
| "rx_run w (Cat a b) k = concat (map (rx_run w b) (rx_run w a k))"
| "rx_run w (Star a) k =
     concat (map (rx_run w (Star a))
                 (filter (\<lambda>k'. length (snd k') < length (snd k)) (rx_run w a k))) @ [k]"
| "rx_run w (Opt a) k = rx_run w a k @ [k]"
| "rx_run w WordB k = (if at_boundary w k then [k] else [])"

definition rx_plus :: "rx \<Rightarrow> rx" where
  "rx_plus a = Cat a (Star a)"

definition is_word :: "unicode \<Rightarrow> nat \<Rightarrow> bool" where
  "is_word u c = (uc_isalnum u c \<or> c = 95)"

text \<open>
  \<open>re.match(p, s)\<close> matches at the start of \<open>s\<close> only, so the leading \<open>^\<close> of the
  source's patterns is part of \<open>re_match\<close> and \<open>re_sub_start\<close>; \<open>re.search(p, s)\<close>
  tries every position from left to right. \<open>re_sub_start\<close> is \<open>re.sub(p, '', s)\<close> for a
  pattern that begins with \<open>^\<close> and cannot match the empty string: the only match is at
  the start, and the first end the matcher finds is the one removed.
\<close>

definition re_match :: "unicode \<Rightarrow> rx \<Rightarrow> ustring \<Rightarrow> bool" where
  "re_match u r s = (rx_run (is_word u) r (None, s) \<noteq> [])"

fun re_search_from :: "unicode \<Rightarrow> rx \<Rightarrow> nat option \<Rightarrow> ustring \<Rightarrow> bool" where
  "re_search_from u r prev [] = (rx_run (is_word u) r (prev, []) \<noteq> [])"
| "re_search_from u r prev (c # cs) =
     (rx_run (is_word u) r (prev, c # cs) \<noteq> [] \<or> re_search_from u r (Some c) cs)"

definition re_search :: "unicode \<Rightarrow> rx \<Rightarrow> ustring \<Rightarrow> bool" where
  "re_search u r s = re_search_from u r None s"

definition re_sub_start :: "unicode \<Rightarrow> rx \<Rightarrow> ustring \<Rightarrow> ustring" where
  "re_sub_start u r s = (case rx_run (is_word u) r (None, s) of [] \<Rightarrow> s | k # _ \<Rightarrow> snd k)"

subsection \<open>The patterns of the source\<close>

text \<open>
  The bullet glyphs are U+2022, U+25E6, \<open>-\<close>, \<open>*\<close>, U+25AA and U+25AB; 46 is the full
  stop, 64 the at sign.
\<close>

definition bullet_glyph :: "nat \<Rightarrow> bool" where
  "bullet_glyph c = (c \<in> set [8226, 9702, 45, 42, 9642, 9643])"

text \<open>\<^verbatim>\<open>^[\s...glyphs...]\<close>\<close>

definition rx_marker :: "unicode \<Rightarrow> rx" where
  "rx_marker u = Cls (\<lambda>c. uc_isspace u c \<or> bullet_glyph c)"

text \<open>\<^verbatim>\<open>^\s*\d+\.\<close>\<close>

definition rx_numbered :: "unicode \<Rightarrow> rx" where
  "rx_numbered u =
     Cat (Star (Cls (uc_isspace u))) (Cat (rx_plus (Cls (uc_isdecimal u))) (Cls (\<lambda>c. c = 46)))"

text \<open>\<^verbatim>\<open>\b\d{3}[-.]?\d{3}[-.]?\d{4}\b\<close>\<close>

definition rx_phone :: "unicode \<Rightarrow> rx" where
  "rx_phone u =
     (let d = Cls (uc_isdecimal u); sep = Opt (Cls (\<lambda>c. c = 45 \<or> c = 46)) in
      Cat WordB (Cat d (Cat d (Cat d (Cat sep (Cat d (Cat d (Cat d (Cat sep
        (Cat d (Cat d (Cat d (Cat d WordB)))))))))))))"

text \<open>\<^verbatim>\<open>\b[A-Za-z0-9._%+-]+@[A-Za-z0-9.-]+\.[A-Z|a-z]{2,}\b\<close>\<close>

definition rx_email :: rx where
  "rx_email =
     (let alnum = (\<lambda>c. ascii_upper c \<or> ascii_lower c \<or> ascii_digit c);
          local_part = Cls (\<lambda>c. alnum c \<or> c \<in> set [46, 95, 37, 43, 45]);
          domain = Cls (\<lambda>c. alnum c \<or> c = 46 \<or> c = 45);
          tld = Cls (\<lambda>c. ascii_upper c \<or> c = 124 \<or> ascii_lower c) in
      Cat WordB (Cat (rx_plus local_part) (Cat (Cls (\<lambda>c. c = 64)) (Cat (rx_plus domain)
        (Cat (Cls (\<lambda>c. c = 46)) (Cat tld (Cat tld (Cat (Star tld) WordB))))))))"

text \<open>\<^verbatim>\<open>^[\s...glyphs...]+\<close> and \<^verbatim>\<open>^\d+\.\s*\<close>, the two removals of the bullet branch.\<close>

definition rx_markers :: "unicode \<Rightarrow> rx" where
  "rx_markers u = rx_plus (Cls (\<lambda>c. uc_isspace u c \<or> bullet_glyph c))"

definition rx_number_prefix :: "unicode \<Rightarrow> rx" where
  "rx_number_prefix u =
     Cat (rx_plus (Cls (uc_isdecimal u))) (Cat (Cls (\<lambda>c. c = 46)) (Star (Cls (uc_isspace u))))"

text \<open>\<^verbatim>\<open>^[\s...glyphs...\d.]+\<close>, the removal of the fallback parser.\<close>

definition rx_markers_digits :: "unicode \<Rightarrow> rx" where
  "rx_markers_digits u =
     rx_plus (Cls (\<lambda>c. uc_isspace u c \<or> bullet_glyph c \<or> uc_isdecimal u c \<or> c = 46))"

section \<open>The data model\<close>

text \<open>
  A character as the PDF library yields it: the keys \<open>text\<close>, \<open>x0\<close> and \<open>y0\<close> are always
  present, \<open>size\<close> and \<open>fontname\<close> are read with \<open>char.get\<close> and may be missing.
\<close>

record pdf_char =
  c_text :: ustring
  c_x0 :: real
  c_y0 :: real
  c_size :: "real option"
  c_fontname :: "ustring option"

record line_data =
  ld_chars :: "pdf_char list"
  ld_font_sizes :: "real list"
  ld_fonts :: "ustring list"
  ld_x_positions :: "real list"

datatype kind =
  Heading1 | Heading2 | Section_header | Bullet | Contact | Indented | Paragraph | Empty

text \<open>
  A text block is the dictionary \<open>analyze_text_blocks\<close> builds. The dictionary of an
  empty line has the keys \<open>type\<close> and \<open>text\<close> only; the emitter returns for it before
  it reads any other key, and \<open>empty_block\<close> fills the absent ones with zeros.
\<close>

record text_block =
  tb_kind :: kind
  tb_text :: ustring
  tb_font_size :: real
  tb_font :: ustring
  tb_indent :: real

definition empty_block :: text_block where
  "empty_block = \<lparr> tb_kind = Empty, tb_text = [], tb_font_size = 0, tb_font = [], tb_indent = 0 \<rparr>"

text \<open>
  The output document is the sequence of nodes appended to it. A heading carries its
  text, level, alignment and whether its runs are underlined. A heading or paragraph
  has runs (and so run attributes) only when its text is not empty.
\<close>

datatype align = Align_default | Align_left | Align_center

record para =
  pa_text :: ustring
  pa_style :: "string option"
  pa_align :: align
  pa_italic :: bool
  pa_bold :: bool
  pa_size :: "int option"
  pa_left_indent :: bool

record cell =
  ce_text :: ustring
  ce_size :: "int option"

type_synonym table = "cell list list"

datatype node =
    Page_break
  | Heading_node ustring nat align bool
  | Para_node para
  | Table_node string table

definition plain_para :: "ustring \<Rightarrow> para" where
  "plain_para t = \<lparr> pa_text = t, pa_style = None, pa_align = Align_default, pa_italic = False,
                    pa_bold = False, pa_size = None, pa_left_indent = False \<rparr>"

text \<open>
  The document library stores text as XML and raises \<open>ValueError\<close> when a text holds
  a character XML does not allow: a control character other than tab, line feed and
  carriage return, a surrogate, U+FFFE or U+FFFF. \<open>doc.add_paragraph(text)\<close>,
  \<open>doc.add_heading(text, level)\<close>, \<open>para.add_run(text)\<close> and the assignment to
  \<open>cell.text\<close> all write their text this way; an empty text is not written at all.
\<close>

definition xml_char :: "nat \<Rightarrow> bool" where
  "xml_char c =
     ((c = 9 \<or> c = 10 \<or> c = 13 \<or> 32 \<le> c)
      \<and> \<not> (55296 \<le> c \<and> c \<le> 57343) \<and> c \<noteq> 65534 \<and> c \<noteq> 65535)"

definition accepted :: "ustring \<Rightarrow> bool" where
  "accepted t = list_all xml_char t"

definition add_paragraph :: "node list \<Rightarrow> para \<Rightarrow> py_error + node list" where
  "add_paragraph doc p =
     (if accepted (pa_text p) then Inr (doc @ [Para_node p]) else Inl ValueError)"

definition add_heading :: "node list \<Rightarrow> ustring \<Rightarrow> nat \<Rightarrow> align \<Rightarrow> bool \<Rightarrow> py_error + node list" where
  "add_heading doc t level al underlined =
     (if accepted t then Inr (doc @ [Heading_node t level al underlined]) else Inl ValueError)"

text \<open>A \<open>for\<close> loop over a list that updates a state and stops at the first exception.\<close>

fun run_loop :: "('s \<Rightarrow> 'a \<Rightarrow> py_error + 's) \<Rightarrow> 's \<Rightarrow> 'a list \<Rightarrow> py_error + 's" where
  "run_loop f st [] = Inr st"
| "run_loop f st (x # xs) = (case f st x of Inl e \<Rightarrow> Inl e | Inr st' \<Rightarrow> run_loop f st' xs)"

text \<open>A table grid of the PDF library: rows of cells, a cell a string or \<open>None\<close>.\<close>

type_synonym grid = "ustring option list list"

record page =
  pg_tables :: "grid list"
  pg_chars :: "pdf_char list"
  pg_extract_text :: "ustring option"

section \<open>The ultra converter\<close>

subsection \<open>Grouping characters into lines\<close>

text \<open>
  The dictionary \<open>lines\<close> keeps its keys in insertion order; it is a list of pairs with
  distinct keys. \<open>dict_upd\<close> changes the value stored under a key that is present.
\<close>

fun dict_upd :: "'k \<Rightarrow> ('v \<Rightarrow> 'v) \<Rightarrow> ('k \<times> 'v) list \<Rightarrow> ('k \<times> 'v) list" where
  "dict_upd k f [] = []"
| "dict_upd k f (e # es) = (if fst e = k then (k, f (snd e)) # es else e # dict_upd k f es)"

definition new_line :: line_data where
  "new_line = \<lparr> ld_chars = [], ld_font_sizes = [], ld_fonts = [], ld_x_positions = [] \<rparr>"

definition add_line_char :: "(real \<times> line_data) list \<Rightarrow> pdf_char \<Rightarrow> (real \<times> line_data) list" where
  "add_line_char lines c =
     (let y = py_round 2 (c_y0 c);
          lines1 = (if map_of lines y = None then lines @ [(y, new_line)] else lines)
      in dict_upd y (\<lambda>ld. ld
           \<lparr> ld_chars := ld_chars ld @ [c],
             ld_font_sizes := ld_font_sizes ld @ [case c_size c of None \<Rightarrow> 12 | Some z \<Rightarrow> z],
             ld_fonts := ld_fonts ld @ [case c_fontname c of None \<Rightarrow> ustr ''default'' | Some f \<Rightarrow> f],
             ld_x_positions := ld_x_positions ld @ [c_x0 c] \<rparr>) lines1)"

definition group_lines :: "pdf_char list \<Rightarrow> (real \<times> line_data) list" where
  "group_lines chars = foldl add_line_char [] chars"

text \<open>\<open>sorted(xs, key=f, reverse=True)\<close>: stable, equal keys keep their order.\<close>

definition py_sorted_rev :: "('a \<Rightarrow> 'k::linorder) \<Rightarrow> 'a list \<Rightarrow> 'a list" where
  "py_sorted_rev f xs = rev (sort_key f (rev xs))"

text \<open>
  \<open>sum(xs) / len(xs)\<close>. The sum and the quotient are exact here, where the
  interpreter rounds each to the nearest double: an average within rounding distance of
  a threshold of the classifier may fall on its other side there.
\<close>

definition py_avg :: "real list \<Rightarrow> py_error + real" where
  "py_avg xs = (if length xs = 0 then Inl ZeroDivisionError
                else Inr (sum_list xs / real (length xs)))"

text \<open>
  \<open>max(xs, key=f)\<close> returns the first maximal element and raises on an empty argument.
  In \<open>most_common_font\<close> it runs over \<open>set(fonts)\<close>, in the iteration order of the
  set.
\<close>

fun py_max_key :: "('a \<Rightarrow> nat) \<Rightarrow> 'a list \<Rightarrow> py_error + 'a" where
  "py_max_key f [] = Inl ValueError"
| "py_max_key f (x # xs) = Inr (foldl (\<lambda>m y. if f m < f y then y else m) x xs)"

definition py_set_iter :: "unicode \<Rightarrow> ustring list \<Rightarrow> ustring list" where
  "py_set_iter u xs = sort_key (uc_hash_rank u xs) (rev (remdups (rev xs)))"

definition most_common_font :: "unicode \<Rightarrow> ustring list \<Rightarrow> py_error + ustring" where
  "most_common_font u fonts = py_max_key (count_list fonts) (py_set_iter u fonts)"

definition indent_of :: "real list \<Rightarrow> real" where
  "indent_of xs = (case xs of [] \<Rightarrow> 0 | x # r \<Rightarrow> foldl min x r)"

subsection \<open>The classifier\<close>

definition section_keywords :: "ustring list" where
  "section_keywords = map ustr [''experience'', ''education'', ''skills'', ''summary'',
     ''objective'', ''projects'', ''certifications'']"

definition classify_text_type :: "unicode \<Rightarrow> ustring \<Rightarrow> real \<Rightarrow> real \<Rightarrow> kind" where
  "classify_text_type u text font_size indent_level =
     (if font_size > 16 then Heading1
      else if font_size > 14 then Heading2
      else if py_isupper u text \<and> length text < 50 then Heading2
      else if re_match u (rx_marker u) text \<or> re_match u (rx_numbered u) text then Bullet
      else if re_search u (rx_phone u) text then Contact
      else if re_search u rx_email text then Contact
      else if list_ex (\<lambda>keyword. py_contains keyword (uc_lower u text)) section_keywords
              \<and> length text < 30 then Section_header
      else if indent_level > 50 then Indented
      else Paragraph)"

subsection \<open>From lines to blocks\<close>

definition line_text :: "unicode \<Rightarrow> pdf_char list \<Rightarrow> ustring" where
  "line_text u cs = py_strip u (concat (map c_text (sort_key c_x0 cs)))"

definition line_block :: "unicode \<Rightarrow> real \<times> line_data \<Rightarrow> py_error + text_block" where
  "line_block u entry =
     (let line_data = snd entry;
          text = line_text u (ld_chars line_data)
      in if text = [] then Inr empty_block
         else case py_avg (ld_font_sizes line_data) of
           Inl e \<Rightarrow> Inl e
         | Inr avg_font_size \<Rightarrow>
             (case most_common_font u (ld_fonts line_data) of
                Inl e \<Rightarrow> Inl e
              | Inr font \<Rightarrow>
                  let indent_level = indent_of (ld_x_positions line_data) in
                  Inr \<lparr> tb_kind = classify_text_type u text avg_font_size indent_level,
                        tb_text = text, tb_font_size = avg_font_size, tb_font = font,
                        tb_indent = indent_level \<rparr>))"

text \<open>A loop that builds a list and stops at the first exception.\<close>

fun collect :: "('a \<Rightarrow> py_error + 'b) \<Rightarrow> 'a list \<Rightarrow> py_error + 'b list" where
  "collect f [] = Inr []"
| "collect f (x # xs) =
     (case f x of Inl e \<Rightarrow> Inl e
      | Inr y \<Rightarrow> (case collect f xs of Inl e \<Rightarrow> Inl e | Inr ys \<Rightarrow> Inr (y # ys)))"

definition sorted_lines :: "pdf_char list \<Rightarrow> (real \<times> line_data) list" where
  "sorted_lines chars = py_sorted_rev fst (group_lines chars)"

definition analyze_text_blocks :: "unicode \<Rightarrow> pdf_char list \<Rightarrow> py_error + text_block list" where
  "analyze_text_blocks u chars = collect (line_block u) (sorted_lines chars)"

subsection \<open>The block emitter\<close>

definition clean_bullet :: "unicode \<Rightarrow> ustring \<Rightarrow> ustring" where
  "clean_bullet u text =
     (let clean_text = py_strip u (re_sub_start u (rx_markers u) text)
      in py_strip u (re_sub_start u (rx_number_prefix u) clean_text))"

definition add_formatted_text_block :: "unicode \<Rightarrow> node list \<Rightarrow> text_block \<Rightarrow> py_error + node list" where
  "add_formatted_text_block u doc block =
     (let text = tb_text block in
      case tb_kind block of
        Empty \<Rightarrow> add_paragraph doc (plain_para [])
      | Heading1 \<Rightarrow> add_heading doc text 1 Align_left False
      | Heading2 \<Rightarrow> add_heading doc text 2 Align_left False
      | Section_header \<Rightarrow> add_heading doc text 2 Align_left (text \<noteq> [])
      | Bullet \<Rightarrow>
          (let clean_text = clean_bullet u text in
           if clean_text \<noteq> []
           then add_paragraph doc ((plain_para clean_text) \<lparr> pa_style := Some ''List Bullet'' \<rparr>)
           else Inr doc)
      | Contact \<Rightarrow>
          add_paragraph doc ((plain_para text)
              \<lparr> pa_align := Align_center,
                pa_size := (if text \<noteq> [] then Some 11 else None),
                pa_italic := (text \<noteq> []) \<rparr>)
      | Indented \<Rightarrow>
          add_paragraph doc ((plain_para text)
              \<lparr> pa_left_indent := True,
                pa_size := (if text \<noteq> [] then Some 10 else None) \<rparr>)
      | Paragraph \<Rightarrow>
          add_paragraph doc ((plain_para text)
              \<lparr> pa_size := (if text \<noteq> [] \<and> tb_font_size block > 12
                            then Some (py_int (tb_font_size block)) else None) \<rparr>))"

subsection \<open>The fallback parser\<close>

definition smart_line :: "unicode \<Rightarrow> node list \<Rightarrow> ustring \<Rightarrow> py_error + node list" where
  "smart_line u doc raw =
     (let line = py_strip u raw in
      if line = [] then add_paragraph doc (plain_para [])
      else if py_isupper u line \<and> length line < 50
      then add_heading doc line 2 Align_default False
      else if re_match u (rx_marker u) line \<or> re_match u (rx_numbered u) line
      then (let clean_text = py_strip u (re_sub_start u (rx_markers_digits u) line) in
            if clean_text \<noteq> []
            then add_paragraph doc ((plain_para clean_text) \<lparr> pa_style := Some ''List Bullet'' \<rparr>)
            else Inr doc)
      else add_paragraph doc (plain_para line))"

definition smart_text_parsing :: "unicode \<Rightarrow> node list \<Rightarrow> ustring \<Rightarrow> py_error + node list" where
  "smart_text_parsing u doc text = run_loop (smart_line u) doc (py_split 10 text)"

subsection \<open>The table emitter\<close>

text \<open>
  \<open>doc.add_table(rows, cols)\<close> allocates \<open>rows\<close> rows of \<open>cols\<close> blank cells;
  \<open>table.rows[i].cells[j]\<close> raises \<open>IndexError\<close> outside them, and the assignment to
  the text of the cell found raises \<open>ValueError\<close> when the library rejects the text. The two converters fill
  a table with the same two loops and differ in the style of the table and in the font
  size the ultra converter gives to the runs of a written cell, which are arguments
  here. \<open>truthy\<close> is the test \<open>if cell_text\<close>.
\<close>

definition truthy :: "ustring option \<Rightarrow> bool" where
  "truthy c = (case c of None \<Rightarrow> False | Some t \<Rightarrow> t \<noteq> [])"

definition blank_cell :: cell where
  "blank_cell = \<lparr> ce_text = [], ce_size = None \<rparr>"

definition new_table :: "nat \<Rightarrow> nat \<Rightarrow> table" where
  "new_table rows cols = replicate rows (replicate cols blank_cell)"

definition set_cell :: "table \<Rightarrow> nat \<Rightarrow> nat \<Rightarrow> cell \<Rightarrow> py_error + table" where
  "set_cell t i j v =
     (if \<not> (i < length t \<and> j < length (t ! i)) then Inl IndexError
      else if \<not> accepted (ce_text v) then Inl ValueError
      else Inr (t[i := (t ! i)[j := v]]))"

definition written_cell :: "unicode \<Rightarrow> int option \<Rightarrow> ustring option \<Rightarrow> cell" where
  "written_cell u sz c = \<lparr> ce_text = py_strip u (case c of None \<Rightarrow> [] | Some t \<Rightarrow> t), ce_size = sz \<rparr>"

fun fill_row ::
  "unicode \<Rightarrow> int option \<Rightarrow> nat \<Rightarrow> (nat \<times> ustring option) list \<Rightarrow> table \<Rightarrow> py_error + table" where
  "fill_row u sz i [] t = Inr t"
| "fill_row u sz i (jc # rest) t =
     (if truthy (snd jc)
      then (case set_cell t i (fst jc) (written_cell u sz (snd jc)) of
              Inl e \<Rightarrow> Inl e
            | Inr t' \<Rightarrow> fill_row u sz i rest t')
      else fill_row u sz i rest t)"

fun fill_rows ::
  "unicode \<Rightarrow> int option \<Rightarrow> (nat \<times> ustring option list) list \<Rightarrow> table \<Rightarrow> py_error + table" where
  "fill_rows u sz [] t = Inr t"
| "fill_rows u sz (ir # rest) t =
     (case fill_row u sz (fst ir) (enumerate 0 (snd ir)) t of
        Inl e \<Rightarrow> Inl e
      | Inr t' \<Rightarrow> fill_rows u sz rest t')"

definition fill_table :: "unicode \<Rightarrow> int option \<Rightarrow> grid \<Rightarrow> py_error + table" where
  "fill_table u sz table_data =
     fill_rows u sz (enumerate 0 table_data)
       (new_table (length table_data) (length (hd table_data)))"

definition add_table :: "unicode \<Rightarrow> string \<Rightarrow> int option \<Rightarrow> node list \<Rightarrow> grid \<Rightarrow> py_error + node list" where
  "add_table u style sz doc table_data =
     (if table_data \<noteq> []
      then (case fill_table u sz table_data of
              Inl e \<Rightarrow> Inl e
            | Inr t \<Rightarrow> Inr (doc @ [Table_node style t, Para_node (plain_para [])]))
      else Inr doc)"

fun add_tables :: "unicode \<Rightarrow> string \<Rightarrow> int option \<Rightarrow> node list \<Rightarrow> grid list \<Rightarrow> py_error + node list" where
  "add_tables u style sz doc [] = Inr doc"
| "add_tables u style sz doc (g # gs) =
     (case add_table u style sz doc g of
        Inl e \<Rightarrow> Inl e
      | Inr doc' \<Rightarrow> add_tables u style sz doc' gs)"

definition ultra_tables :: "unicode \<Rightarrow> node list \<Rightarrow> grid list \<Rightarrow> py_error + node list" where
  "ultra_tables u doc tables = add_tables u ''Light Grid Accent 1'' (Some 11) doc tables"

subsection \<open>The page loop\<close>

definition ultra_page_text :: "unicode \<Rightarrow> node list \<Rightarrow> page \<Rightarrow> py_error + node list" where
  "ultra_page_text u doc p =
     (if pg_chars p \<noteq> []
      then (case analyze_text_blocks u (pg_chars p) of
              Inl e \<Rightarrow> Inl e
            | Inr text_blocks \<Rightarrow> run_loop (add_formatted_text_block u) doc text_blocks)
      else (case pg_extract_text p of
              None \<Rightarrow> Inr doc
            | Some text \<Rightarrow> if text \<noteq> [] then smart_text_parsing u doc text else Inr doc))"

fun ultra_pages :: "unicode \<Rightarrow> nat \<Rightarrow> node list \<Rightarrow> page list \<Rightarrow> py_error + node list" where
  "ultra_pages u page_num doc [] = Inr doc"
| "ultra_pages u page_num doc (p # ps) =
     (let doc1 = (if page_num > 1 then doc @ [Page_break] else doc) in
      case ultra_tables u doc1 (pg_tables p) of
        Inl e \<Rightarrow> Inl e
      | Inr doc2 \<Rightarrow>
          (case ultra_page_text u doc2 p of
             Inl e \<Rightarrow> Inl e
           | Inr doc3 \<Rightarrow> ultra_pages u (page_num + 1) doc3 ps))"

text \<open>
  \<open>pdfplumber.open\<close> either raises or yields the pages: the argument \<open>pdf\<close> is its
  outcome.
\<close>

definition ultra_preserve_formatting :: "unicode \<Rightarrow> py_error + page list \<Rightarrow> py_error + node list" where
  "ultra_preserve_formatting u pdf =
     (case pdf of Inl e \<Rightarrow> Inl e | Inr pages \<Rightarrow> ultra_pages u 1 [] pages)"

subsection \<open>The main block\<close>

text \<open>
  The outcome of a run: the file saved, if any, the messages the main block prints
  (the progress lines printed inside the conversion are left out) and the exit status
  when the script calls \<open>sys.exit\<close>. \<open>doc.save\<close> raises when the file cannot be
  written; \<open>writable\<close> says whether it can.
\<close>

datatype message =
  Msg_banner | Msg_cannot_proceed | Msg_starting | Msg_complete string | Msg_error py_error | Msg_hint

record outcome =
  oc_saved :: "(string \<times> node list) option"
  oc_messages :: "message list"
  oc_exit :: "nat option"

definition py_save :: "bool \<Rightarrow> node list \<Rightarrow> py_error + node list" where
  "py_save writable doc = (if writable then Inr doc else Inl SaveError)"

definition ultra_main :: "unicode \<Rightarrow> bool \<Rightarrow> bool \<Rightarrow> py_error + page list \<Rightarrow> outcome" where
  "ultra_main u requirements_ok writable pdf =
     (if \<not> requirements_ok
      then \<lparr> oc_saved = None, oc_messages = [Msg_banner, Msg_cannot_proceed], oc_exit = Some 1 \<rparr>
      else (case ultra_preserve_formatting u pdf of
              Inl e \<Rightarrow> \<lparr> oc_saved = None,
                          oc_messages = [Msg_banner, Msg_starting, Msg_error e, Msg_hint],
                          oc_exit = None \<rparr>
            | Inr doc \<Rightarrow>
                (case py_save writable doc of
                   Inl e \<Rightarrow> \<lparr> oc_saved = None,
                               oc_messages = [Msg_banner, Msg_starting, Msg_error e, Msg_hint],
                               oc_exit = None \<rparr>
                 | Inr saved \<Rightarrow>
                     \<lparr> oc_saved = Some (''PDF-Ultra-Formatted.docx'', saved),
                       oc_messages = [Msg_banner, Msg_starting,
                                      Msg_complete ''PDF-Ultra-Formatted.docx''],
                       oc_exit = None \<rparr>)))"

section \<open>The advanced converter\<close>

text \<open>\<^verbatim>\<open>^\s*[a-zA-Z]\.\<close> and \<^verbatim>\<open>^[a-zA-Z]\.\s*\<close>\<close>

definition ascii_letter :: "nat \<Rightarrow> bool" where
  "ascii_letter c = (ascii_lower c \<or> ascii_upper c)"

definition rx_lettered :: "unicode \<Rightarrow> rx" where
  "rx_lettered u = Cat (Star (Cls (uc_isspace u))) (Cat (Cls ascii_letter) (Cls (\<lambda>c. c = 46)))"

definition rx_letter_prefix :: "unicode \<Rightarrow> rx" where
  "rx_letter_prefix u = Cat (Cls ascii_letter) (Cat (Cls (\<lambda>c. c = 46)) (Star (Cls (uc_isspace u))))"

definition bullet_indicators :: "ustring list" where
  "bullet_indicators = [[8226], [9702], [45], [42], [9642], [9643]]"

definition detect_bullet_point :: "unicode \<Rightarrow> ustring \<Rightarrow> bool" where
  "detect_bullet_point u text =
     (list_ex (\<lambda>indicator. py_startswith text indicator) bullet_indicators
      \<or> re_match u (rx_numbered u) text
      \<or> re_match u (rx_lettered u) text)"

definition bullet_text :: "unicode \<Rightarrow> ustring \<Rightarrow> ustring" where
  "bullet_text u text0 =
     (let text1 = py_strip u (re_sub_start u (rx_markers u) text0);
          text2 = py_strip u (re_sub_start u (rx_number_prefix u) text1)
      in py_strip u (re_sub_start u (rx_letter_prefix u) text2))"

definition add_bullet_point :: "unicode \<Rightarrow> node list \<Rightarrow> ustring \<Rightarrow> py_error + node list" where
  "add_bullet_point u doc text0 =
     (let text = bullet_text u text0 in
      if text \<noteq> []
      then add_paragraph doc ((plain_para text) \<lparr> pa_style := Some ''List Bullet'' \<rparr>)
      else Inr doc)"

definition bold_keywords :: "ustring list" where
  "bold_keywords = map ustr [''summary'', ''objective'', ''experience'', ''education'', ''skills'']"

definition add_formatted_paragraph :: "unicode \<Rightarrow> node list \<Rightarrow> ustring \<Rightarrow> py_error + node list" where
  "add_formatted_paragraph u doc text0 =
     (let text = py_strip u text0 in
      if text = [] then Inr doc
      else if detect_bullet_point u text then add_bullet_point u doc text
      else if py_isupper u text \<and> length text < 50
      then add_heading doc text 2 Align_default False
      else add_paragraph doc ((plain_para text)
             \<lparr> pa_bold := list_ex (\<lambda>keyword. py_contains keyword (uc_lower u text)) bold_keywords \<rparr>))"

text \<open>
  The third argument of the source's \<open>add_formatted_paragraph\<close>, the characters of the
  line, is never read and is left out above.
\<close>

subsection \<open>Grouping characters into lines\<close>

definition adv_add_line_char :: "(real \<times> pdf_char list) list \<Rightarrow> pdf_char \<Rightarrow> (real \<times> pdf_char list) list" where
  "adv_add_line_char lines c =
     (let y = py_round 1 (c_y0 c);
          lines1 = (if map_of lines y = None then lines @ [(y, [])] else lines)
      in dict_upd y (\<lambda>cs. cs @ [c]) lines1)"

definition adv_group_lines :: "pdf_char list \<Rightarrow> (real \<times> pdf_char list) list" where
  "adv_group_lines chars = foldl adv_add_line_char [] chars"

definition adv_sorted_lines :: "pdf_char list \<Rightarrow> (real \<times> pdf_char list) list" where
  "adv_sorted_lines chars = py_sorted_rev fst (adv_group_lines chars)"

subsection \<open>Lines to paragraphs\<close>

text \<open>
  The state of the loop over the sorted lines is the document and
  \<open>current_paragraph_text\<close>.
\<close>

definition adv_line_step ::
  "unicode \<Rightarrow> node list \<times> ustring list \<Rightarrow> real \<times> pdf_char list \<Rightarrow> py_error + node list \<times> ustring list" where
  "adv_line_step u st entry =
     (let doc = fst st;
          current_paragraph_text = snd st;
          line_chars = sort_key c_x0 (snd entry);
          line_text = py_strip u (concat (map c_text line_chars))
      in if line_text = []
         then (if current_paragraph_text \<noteq> []
               then (case add_formatted_paragraph u doc (py_join [32] current_paragraph_text) of
                       Inl e \<Rightarrow> Inl e | Inr doc1 \<Rightarrow> Inr (doc1, []))
               else Inr (doc, current_paragraph_text))
         else (case py_avg (map (\<lambda>c. case c_size c of None \<Rightarrow> 12 | Some z \<Rightarrow> z) line_chars) of
                 Inl e \<Rightarrow> Inl e
               | Inr avg_font_size \<Rightarrow>
                   (let is_likely_header =
                          (avg_font_size > 14 \<or> py_isupper u line_text \<or> length line_text < 50)
                    in if is_likely_header \<and> current_paragraph_text \<noteq> []
                       then (case add_formatted_paragraph u doc
                                    (py_join [32] current_paragraph_text) of
                               Inl e \<Rightarrow> Inl e
                             | Inr doc1 \<Rightarrow>
                                 (case (if py_isupper u line_text \<and> length line_text < 30
                                        then add_heading doc1 line_text 2 Align_default False
                                        else add_paragraph doc1 ((plain_para line_text)
                                               \<lparr> pa_size := (if avg_font_size > 14
                                                              then Some (py_int avg_font_size)
                                                              else None),
                                                 pa_bold := (avg_font_size > 14) \<rparr>)) of
                                    Inl e \<Rightarrow> Inl e
                                  | Inr doc2 \<Rightarrow> Inr (doc2, [])))
                       else Inr (doc, current_paragraph_text @ [line_text]))))"

fun adv_lines ::
  "unicode \<Rightarrow> node list \<times> ustring list \<Rightarrow> (real \<times> pdf_char list) list \<Rightarrow> py_error + node list \<times> ustring list" where
  "adv_lines u st [] = Inr st"
| "adv_lines u st (entry # rest) =
     (case adv_line_step u st entry of Inl e \<Rightarrow> Inl e | Inr st' \<Rightarrow> adv_lines u st' rest)"

definition adv_chars_text :: "unicode \<Rightarrow> node list \<Rightarrow> pdf_char list \<Rightarrow> py_error + node list" where
  "adv_chars_text u doc chars =
     (case adv_lines u (doc, []) (adv_sorted_lines chars) of
        Inl e \<Rightarrow> Inl e
      | Inr st \<Rightarrow>
          if snd st \<noteq> [] then add_formatted_paragraph u (fst st) (py_join [32] (snd st))
          else Inr (fst st))"

definition adv_fallback_line :: "unicode \<Rightarrow> node list \<Rightarrow> ustring \<Rightarrow> py_error + node list" where
  "adv_fallback_line u doc raw =
     (let line = py_strip u raw in
      if line \<noteq> []
      then (if detect_bullet_point u line then add_bullet_point u doc line
            else if py_isupper u line \<and> length line < 50
            then add_heading doc line 2 Align_default False
            else add_paragraph doc (plain_para line))
      else Inr doc)"

definition adv_page_text :: "unicode \<Rightarrow> node list \<Rightarrow> page \<Rightarrow> py_error + node list" where
  "adv_page_text u doc p =
     (if pg_chars p \<noteq> [] then adv_chars_text u doc (pg_chars p)
      else (case pg_extract_text p of
              None \<Rightarrow> Inr doc
            | Some text \<Rightarrow>
                if text \<noteq> [] then run_loop (adv_fallback_line u) doc (py_split 10 text)
                else Inr doc))"

definition adv_tables :: "unicode \<Rightarrow> node list \<Rightarrow> grid list \<Rightarrow> py_error + node list" where
  "adv_tables u doc tables = add_tables u ''Table Grid'' None doc tables"

fun adv_pages :: "unicode \<Rightarrow> nat \<Rightarrow> node list \<Rightarrow> page list \<Rightarrow> py_error + node list" where
  "adv_pages u page_num doc [] = Inr doc"
| "adv_pages u page_num doc (p # ps) =
     (let doc1 = (if page_num > 1 then doc @ [Page_break] else doc) in
      case adv_tables u doc1 (pg_tables p) of
        Inl e \<Rightarrow> Inl e
      | Inr doc2 \<Rightarrow>
          (case adv_page_text u doc2 p of
             Inl e \<Rightarrow> Inl e
           | Inr doc3 \<Rightarrow> adv_pages u (page_num + 1) doc3 ps))"

definition extract_with_tables_and_formatting :: "unicode \<Rightarrow> py_error + page list \<Rightarrow> py_error + node list" where
  "extract_with_tables_and_formatting u pdf =
     (case pdf of Inl e \<Rightarrow> Inl e | Inr pages \<Rightarrow> adv_pages u 1 [] pages)"

definition adv_main :: "unicode \<Rightarrow> bool \<Rightarrow> py_error + page list \<Rightarrow> outcome" where
  "adv_main u writable pdf =
     (case extract_with_tables_and_formatting u pdf of
        Inl e \<Rightarrow> \<lparr> oc_saved = None, oc_messages = [Msg_starting, Msg_error e, Msg_hint],
                    oc_exit = None \<rparr>
      | Inr doc \<Rightarrow>
          (case py_save writable doc of
             Inl e \<Rightarrow> \<lparr> oc_saved = None, oc_messages = [Msg_starting, Msg_error e, Msg_hint],
                         oc_exit = None \<rparr>
           | Inr saved \<Rightarrow>
               \<lparr> oc_saved = Some (''PDF-Advanced-Formatted.docx'', saved),
                 oc_messages = [Msg_starting, Msg_complete ''PDF-Advanced-Formatted.docx''],
                 oc_exit = None \<rparr>))"

section \<open>What the grouping computes\<close>

text \<open>
  The terms the properties below are stated with. \<open>first_keys\<close> lists the elements of
  a list once each, in the order of their first occurrence; \<open>line_of cs\<close> is the entry
  the ultra grouper holds for a line with the characters \<open>cs\<close>, and \<open>block_of u cs\<close>
  the block built from it.
\<close>

definition first_keys :: "'a list \<Rightarrow> 'a list" where
  "first_keys xs = rev (remdups (rev xs))"

definition size_or_12 :: "pdf_char \<Rightarrow> real" where
  "size_or_12 c = (case c_size c of None \<Rightarrow> 12 | Some z \<Rightarrow> z)"

definition font_or_default :: "pdf_char \<Rightarrow> ustring" where
  "font_or_default c = (case c_fontname c of None \<Rightarrow> ustr ''default'' | Some f \<Rightarrow> f)"

definition line_of :: "pdf_char list \<Rightarrow> line_data" where
  "line_of cs = \<lparr> ld_chars = cs, ld_font_sizes = map size_or_12 cs,
                  ld_fonts = map font_or_default cs, ld_x_positions = map c_x0 cs \<rparr>"

definition block_of :: "unicode \<Rightarrow> pdf_char list \<Rightarrow> text_block" where
  "block_of u cs =
     (let text = line_text u cs;
          avg = sum_list (map size_or_12 cs) / real (length cs);
          indent = indent_of (map c_x0 cs)
      in if text = [] then empty_block
         else \<lparr> tb_kind = classify_text_type u text avg indent, tb_text = text,
                tb_font_size = avg,
                tb_font = (case most_common_font u (map font_or_default cs) of
                             Inl e \<Rightarrow> [] | Inr f \<Rightarrow> f),
                tb_indent = indent \<rparr>)"

text \<open>Three characters on two lines, the upper line given last and out of order.\<close>

definition ex_chars :: "pdf_char list" where
  "ex_chars =
     [\<lparr> c_text = ustr ''b'', c_x0 = 20, c_y0 = 700, c_size = None, c_fontname = None \<rparr>,
      \<lparr> c_text = ustr ''T'', c_x0 = 10, c_y0 = 720, c_size = Some 18, c_fontname = None \<rparr>,
      \<lparr> c_text = ustr ''a'', c_x0 = 10, c_y0 = 700, c_size = Some 10, c_fontname = None \<rparr>]"

text \<open>
  What the two loops of the table emitter leave in a row, and the table they are
  expected to build from a grid: one row per row of the grid, as wide as the first row,
  a cell written where the grid has a non-empty value and blank elsewhere.
\<close>

fun write_cells :: "unicode \<Rightarrow> int option \<Rightarrow> (nat \<times> ustring option) list \<Rightarrow> cell list \<Rightarrow> cell list" where
  "write_cells u sz [] r = r"
| "write_cells u sz (jc # rest) r =
     write_cells u sz rest
       (if truthy (snd jc) then r[fst jc := written_cell u sz (snd jc)] else r)"

definition expected_table :: "unicode \<Rightarrow> int option \<Rightarrow> grid \<Rightarrow> table" where
  "expected_table u sz table_data =
     map (\<lambda>row. map (\<lambda>j. if j < length row \<and> truthy (row ! j)
                           then written_cell u sz (row ! j) else blank_cell)
                    [0..<length (hd table_data)])
         table_data"

definition fits :: "grid \<Rightarrow> bool" where
  "fits table_data =
     (table_data \<noteq> [] \<and> list_all (\<lambda>row. length row \<le> length (hd table_data)) table_data)"

text \<open>
  A grid is \<open>clean\<close> when the library accepts every value it would write: the
  stripped text of every cell that is present.
\<close>

definition clean_cell :: "unicode \<Rightarrow> ustring option \<Rightarrow> bool" where
  "clean_cell u c = (case c of None \<Rightarrow> True | Some t \<Rightarrow> accepted (py_strip u t))"

definition grid_clean :: "unicode \<Rightarrow> grid \<Rightarrow> bool" where
  "grid_clean u table_data = list_all (list_all (clean_cell u)) table_data"

text \<open>
  Example grids: the three-by-two grid of the specification's fourth scenario; a grid
  with padded text, an absent value and a short row; a grid whose second row is wider
  than its first; and a one-cell grid whose text ends in the control character U+0001.
\<close>

definition ex_grid :: grid where
  "ex_grid = [[Some (ustr ''Name''), Some (ustr ''Age'')],
              [Some (ustr ''Alice''), Some (ustr ''30'')],
              [Some (ustr ''Bob''), Some (ustr ''25'')]]"

definition short_grid :: grid where
  "short_grid = [[Some (ustr '' Name ''), None], [Some (ustr ''Bob'')]]"

definition padded_grid :: grid where
  "padded_grid = [[Some (ustr ''  Item ''), Some (ustr ''Qty''), Some (ustr ''Note'')],
                  [Some (ustr ''Pen '' @ [9]), None],
                  [Some [], Some (ustr '' 2'')]]"

definition wide_grid :: grid where
  "wide_grid = [[Some (ustr ''a'')], [Some (ustr ''b''), Some (ustr ''c'')]]"

definition ctl_grid :: grid where
  "ctl_grid = [[Some [97, 1]]]"

text \<open>
  A pattern is \<open>consuming\<close> when every match of it takes at least one character. A
  text is \<open>marked\<close> when one of the removals of the bullet branch applies to it: the
  two of the ultra converter, or the three of the advanced converter.
\<close>

fun consuming :: "rx \<Rightarrow> bool" where
  "consuming (Cls p) = True"
| "consuming (Cat a b) = (consuming a \<or> consuming b)"
| "consuming (Star a) = False"
| "consuming (Opt a) = False"
| "consuming WordB = False"

definition ultra_marked :: "unicode \<Rightarrow> ustring \<Rightarrow> bool" where
  "ultra_marked u t = (re_match u (rx_markers u) t \<or> re_match u (rx_number_prefix u) t)"

definition adv_marked :: "unicode \<Rightarrow> ustring \<Rightarrow> bool" where
  "adv_marked u t = (ultra_marked u t \<or> re_match u (rx_letter_prefix u) t)"

text \<open>
  A page line that consists of a dash only, and the block the ultra converter builds
  from it.
\<close>

definition dash_chars :: "pdf_char list" where
  "dash_chars =
     [\<lparr> c_text = ustr ''-'', c_x0 = 72, c_y0 = 500, c_size = Some 11, c_fontname = None \<rparr>]"

definition dash_block :: text_block where
  "dash_block = \<lparr> tb_kind = Bullet, tb_text = ustr ''-'', tb_font_size = 11,
                   tb_font = ustr ''default'', tb_indent = 72 \<rparr>"

definition title_block :: text_block where
  "title_block = \<lparr> tb_kind = Heading1, tb_text = ustr ''T'', tb_font_size = 18,
                   tb_font = ustr ''default'', tb_indent = 10 \<rparr>"

text \<open>
  What the emitter hands to the document library for a block, and the heading level
  that goes with a kind. The text, the heading level and the bullet style of a node.
\<close>

definition emitted_text :: "unicode \<Rightarrow> text_block \<Rightarrow> ustring" where
  "emitted_text u block =
     (case tb_kind block of
        Empty \<Rightarrow> []
      | Bullet \<Rightarrow> clean_bullet u (tb_text block)
      | _ \<Rightarrow> tb_text block)"

definition heading_kind :: "kind \<Rightarrow> nat option" where
  "heading_kind k =
     (case k of Heading1 \<Rightarrow> Some 1 | Heading2 \<Rightarrow> Some 2 | Section_header \<Rightarrow> Some 2
      | _ \<Rightarrow> None)"

fun node_text :: "node \<Rightarrow> ustring" where
  "node_text (Heading_node t l a ul) = t"
| "node_text (Para_node p) = pa_text p"
| "node_text n = []"

fun heading_level :: "node \<Rightarrow> nat option" where
  "heading_level (Heading_node t l a ul) = Some l"
| "heading_level n = None"

fun bulleted :: "node \<Rightarrow> bool" where
  "bulleted (Para_node p) = (pa_style p = Some ''List Bullet'')"
| "bulleted n = False"

fun is_paragraph :: "node \<Rightarrow> bool" where
  "is_paragraph (Para_node p) = True"
| "is_paragraph n = False"

text \<open>
  A paragraph block whose text ends in the control character U+0001, and a contact
  block.
\<close>

definition ctl_block :: text_block where
  "ctl_block = \<lparr> tb_kind = Paragraph, tb_text = [97, 1], tb_font_size = 11,
                  tb_font = ustr ''default'', tb_indent = 10 \<rparr>"

definition mail_block :: text_block where
  "mail_block = \<lparr> tb_kind = Contact, tb_text = ustr ''a@b.io'', tb_font_size = 11,
                   tb_font = ustr ''default'', tb_indent = 10 \<rparr>"

text \<open>
  Four characters whose vertical positions differ in the third decimal place: three
  of them share a line at two decimal places, all four at one.
\<close>

definition near_chars :: "pdf_char list" where
  "near_chars =
     [\<lparr> c_text = ustr ''c'', c_x0 = 30, c_y0 = 700004 / 1000, c_size = None, c_fontname = None \<rparr>,
      \<lparr> c_text = ustr ''a'', c_x0 = 10, c_y0 = 700001 / 1000, c_size = None, c_fontname = None \<rparr>,
      \<lparr> c_text = ustr ''z'', c_x0 = 10, c_y0 = 700006 / 1000, c_size = None, c_fontname = None \<rparr>,
      \<lparr> c_text = ustr ''b'', c_x0 = 20, c_y0 = 699996 / 1000, c_size = None, c_fontname = None \<rparr>]"

text \<open>
  The shape of an output document. \<open>table_part\<close> holds of a run of tables, each
  followed by its blank spacer paragraph; a text node is a heading or a paragraph;
  \<open>layout n segs\<close> lays the pages out from page number \<open>n\<close> on, a page being the
  pair of its table nodes and its text nodes, with a page break before every page but
  page 1.
\<close>

fun table_part :: "node list \<Rightarrow> bool" where
  "table_part [] = True"
| "table_part (Table_node style t # Para_node p # rest) = (p = plain_para [] \<and> table_part rest)"
| "table_part ns = False"

fun is_text_node :: "node \<Rightarrow> bool" where
  "is_text_node (Heading_node t l a ul) = True"
| "is_text_node (Para_node p) = True"
| "is_text_node n = False"

fun layout :: "nat \<Rightarrow> (node list \<times> node list) list \<Rightarrow> node list" where
  "layout n [] = []"
| "layout n (seg # rest) =
     (if n > 1 then [Page_break] else []) @ fst seg @ snd seg @ layout (Suc n) rest"

definition ultra_segment :: "unicode \<Rightarrow> page \<Rightarrow> node list \<times> node list \<Rightarrow> bool" where
  "ultra_segment u p seg =
     (ultra_tables u [] (pg_tables p) = Inr (fst seg) \<and> table_part (fst seg)
      \<and> ultra_page_text u [] p = Inr (snd seg) \<and> list_all is_text_node (snd seg))"

definition adv_segment :: "unicode \<Rightarrow> page \<Rightarrow> node list \<times> node list \<Rightarrow> bool" where
  "adv_segment u p seg =
     (adv_tables u [] (pg_tables p) = Inr (fst seg) \<and> table_part (fst seg)
      \<and> adv_page_text u [] p = Inr (snd seg) \<and> list_all is_text_node (snd seg))"

text \<open>
  Two pages: the first with the example grid and the example characters, the second
  without characters, read through the fallback text. And a document whose only page
  holds the grid with the wide second row.
\<close>

definition ex_pages :: "page list" where
  "ex_pages =
     [\<lparr> pg_tables = [ex_grid], pg_chars = ex_chars, pg_extract_text = None \<rparr>,
      \<lparr> pg_tables = [], pg_chars = [], pg_extract_text = Some (ustr ''SKILLS'' @ [10] @ ustr ''- c'') \<rparr>]"

definition bad_pages :: "page list" where
  "bad_pages = [\<lparr> pg_tables = [wide_grid], pg_chars = ex_chars, pg_extract_text = None \<rparr>]"

definition ex_ultra_doc :: "node list" where
  "ex_ultra_doc =
     [Table_node ''Light Grid Accent 1''
        [[\<lparr>ce_text = ustr ''Name'', ce_size = Some 11\<rparr>, \<lparr>ce_text = ustr ''Age'', ce_size = Some 11\<rparr>],
         [\<lparr>ce_text = ustr ''Alice'', ce_size = Some 11\<rparr>, \<lparr>ce_text = ustr ''30'', ce_size = Some 11\<rparr>],
         [\<lparr>ce_text = ustr ''Bob'', ce_size = Some 11\<rparr>, \<lparr>ce_text = ustr ''25'', ce_size = Some 11\<rparr>]],
      Para_node (plain_para []),
      Heading_node (ustr ''T'') 1 Align_left False,
      Para_node (plain_para (ustr ''ab'')),
      Page_break,
      Heading_node (ustr ''SKILLS'') 2 Align_default False,
      Para_node ((plain_para (ustr ''c'')) \<lparr> pa_style := Some ''List Bullet'' \<rparr>)]"

section \<open>Properties of the grouping\<close>

lemma first_keys_snoc:
  "first_keys (xs @ [x]) = (if x \<in> set xs then first_keys xs else first_keys xs @ [x])"
  by (simp add: first_keys_def)

lemma set_first_keys: "set (first_keys xs) = set xs"
  by (simp add: first_keys_def)

lemma distinct_first_keys: "distinct (first_keys xs)"
  by (simp add: first_keys_def)

lemma dict_upd_map:
  "distinct (map fst es) \<Longrightarrow>
   dict_upd k f es = map (\<lambda>e. if fst e = k then (k, f (snd e)) else e) es"
proof (induction es)
  case Nil
  then show ?case by simp
next
  case (Cons e es)
  show ?case
  proof (cases "fst e = k")
    case True
    with Cons.prems have "\<forall>x\<in>set es. fst x \<noteq> k" by (fastforce simp: image_iff)
    then have "map (\<lambda>e. if fst e = k then (k, f (snd e)) else e) es = es"
      by (simp add: map_idI)
    with True show ?thesis by simp
  next
    case False
    with Cons show ?thesis by simp
  qed
qed

lemma map_of_keyed:
  "(map_of (map (\<lambda>y. (y, g y)) ys) k = None) = (k \<notin> set ys)"
  by (induction ys) auto

text \<open>
  One round of either grouping loop, started on a dictionary that holds, for every key
  seen so far, the characters with that key in the order of the input.
\<close>

lemma group_step:
  fixes q :: "'c \<Rightarrow> 'k" and mk :: "'c list \<Rightarrow> 'v"
  assumes upd: "\<And>xs. f (mk xs) = mk (xs @ [c])"
  defines "L \<equiv> \<lambda>cs. map (\<lambda>y. (y, mk (filter (\<lambda>x. q x = y) cs))) (first_keys (map q cs))"
  shows "dict_upd (q c) f
           (if map_of (L cs) (q c) = None then L cs @ [(q c, mk [])] else L cs)
         = L (cs @ [c])"
proof -
  let ?ks = "first_keys (map q cs)"
  let ?g = "\<lambda>e. if fst e = q c then (q c, f (snd e)) else e"
  have keysL: "map fst (L cs) = ?ks" by (simp add: L_def comp_def)
  have dL: "distinct (map fst (L cs))" by (simp only: keysL distinct_first_keys)
  show ?thesis
  proof (cases "q c \<in> set (map q cs)")
    case True
    then have old: "(map_of (L cs) (q c) = None) = False"
      by (simp add: L_def map_of_keyed set_first_keys)
    have "dict_upd (q c) f (L cs) = map ?g (L cs)"
      by (rule dict_upd_map [OF dL])
    also have "\<dots> = L (cs @ [c])"
      using True by (simp add: L_def upd first_keys_snoc)
    finally show ?thesis by (simp only: old if_False)
  next
    case False
    then have new: "(map_of (L cs) (q c) = None) = True"
      by (simp add: L_def map_of_keyed set_first_keys)
    have d2: "distinct (map fst (L cs @ [(q c, mk [])]))"
      using False by (simp add: L_def comp_def distinct_first_keys set_first_keys)
    have none: "filter (\<lambda>x. q x = q c) cs = []"
      using False by (fastforce simp: filter_empty_conv image_iff)
    have ne: "\<forall>y\<in>set ?ks. y \<noteq> q c"
      using False by (fastforce simp: set_first_keys image_iff)
    have front: "map ?g (L cs) = map (\<lambda>y. (y, mk (filter (\<lambda>x. q x = y) (cs @ [c])))) ?ks"
      using ne by (auto simp: L_def)
    have "dict_upd (q c) f (L cs @ [(q c, mk [])]) = map ?g (L cs @ [(q c, mk [])])"
      by (rule dict_upd_map [OF d2])
    also have "\<dots> = L (cs @ [c])"
      unfolding map_append front using False
      by (simp add: L_def first_keys_snoc none upd [of "[]", simplified])
    finally show ?thesis by (simp only: new if_True)
  qed
qed

lemma group_lines_spec:
  "group_lines cs =
     map (\<lambda>y. (y, line_of (filter (\<lambda>c. py_round 2 (c_y0 c) = y) cs)))
         (first_keys (map (\<lambda>c. py_round 2 (c_y0 c)) cs))"
proof (induction cs rule: rev_induct)
  case Nil
  then show ?case by (simp add: group_lines_def first_keys_def)
next
  case (snoc c cs)
  have new: "new_line = line_of []"
    by (simp add: new_line_def line_of_def)
  have "group_lines (cs @ [c]) = add_line_char (group_lines cs) c"
    by (simp add: group_lines_def)
  also have "\<dots> = map (\<lambda>y. (y, line_of (filter (\<lambda>c. py_round 2 (c_y0 c) = y) (cs @ [c]))))
                       (first_keys (map (\<lambda>c. py_round 2 (c_y0 c)) (cs @ [c])))"
    unfolding snoc.IH add_line_char_def Let_def new
    by (rule group_step) (simp add: line_of_def size_or_12_def font_or_default_def)
  finally show ?case .
qed

lemma adv_group_lines_spec:
  "adv_group_lines cs =
     map (\<lambda>y. (y, filter (\<lambda>c. py_round 1 (c_y0 c) = y) cs))
         (first_keys (map (\<lambda>c. py_round 1 (c_y0 c)) cs))"
proof (induction cs rule: rev_induct)
  case Nil
  then show ?case by (simp add: adv_group_lines_def first_keys_def)
next
  case (snoc c cs)
  have "adv_group_lines (cs @ [c]) = adv_add_line_char (adv_group_lines cs) c"
    by (simp add: adv_group_lines_def)
  also have "\<dots> = map (\<lambda>y. (y, filter (\<lambda>c. py_round 1 (c_y0 c) = y) (cs @ [c])))
                       (first_keys (map (\<lambda>c. py_round 1 (c_y0 c)) (cs @ [c])))"
    unfolding snoc.IH adv_add_line_char_def Let_def
    by (rule group_step [where mk = "\<lambda>xs. xs"]) simp
  finally show ?case .
qed

lemma py_sorted_rev_desc:
  assumes "distinct (map f xs)"
  shows "sorted_wrt (\<lambda>a b. a > b) (map f (py_sorted_rev f xs))"
proof -
  let ?ys = "map f (sort_key f (rev xs))"
  have "mset ?ys = mset (map f (rev xs))" by simp
  then have "distinct ?ys = distinct (map f (rev xs))"
    by (rule mset_eq_imp_distinct_iff)
  with assms have d: "distinct ?ys" by (simp flip: rev_map)
  have "sorted ?ys" by (rule sorted_sort_key)
  with d have "sorted_wrt (<) ?ys" by (simp add: strict_sorted_iff)
  then show ?thesis
    by (simp add: py_sorted_rev_def sorted_wrt_rev flip: rev_map)
qed

lemma sorted_lines_desc: "sorted_wrt (\<lambda>a b. a > b) (map fst (sorted_lines cs))"
  unfolding sorted_lines_def
  by (rule py_sorted_rev_desc) (simp add: group_lines_spec comp_def distinct_first_keys)

lemma adv_sorted_lines_desc: "sorted_wrt (\<lambda>a b. a > b) (map fst (adv_sorted_lines cs))"
  unfolding adv_sorted_lines_def
  by (rule py_sorted_rev_desc) (simp add: adv_group_lines_spec comp_def distinct_first_keys)

lemma sorted_lines_entry:
  assumes "e \<in> set (sorted_lines cs)"
  shows "snd e = line_of (filter (\<lambda>c. py_round 2 (c_y0 c) = fst e) cs)
         \<and> filter (\<lambda>c. py_round 2 (c_y0 c) = fst e) cs \<noteq> []"
proof -
  from assms have "e \<in> set (group_lines cs)"
    by (simp add: sorted_lines_def py_sorted_rev_def)
  then obtain y where y: "y \<in> set (map (\<lambda>c. py_round 2 (c_y0 c)) cs)"
    and e: "e = (y, line_of (filter (\<lambda>c. py_round 2 (c_y0 c) = y) cs))"
    by (subst (asm) group_lines_spec) (auto simp: set_first_keys)
  from y have "filter (\<lambda>c. py_round 2 (c_y0 c) = y) cs \<noteq> []"
    by (auto simp: filter_empty_conv)
  with e show ?thesis by simp
qed

lemma adv_sorted_lines_entry:
  assumes "e \<in> set (adv_sorted_lines cs)"
  shows "snd e = filter (\<lambda>c. py_round 1 (c_y0 c) = fst e) cs \<and> snd e \<noteq> []"
proof -
  from assms have "e \<in> set (adv_group_lines cs)"
    by (simp add: adv_sorted_lines_def py_sorted_rev_def)
  then obtain y where y: "y \<in> set (map (\<lambda>c. py_round 1 (c_y0 c)) cs)"
    and e: "e = (y, filter (\<lambda>c. py_round 1 (c_y0 c) = y) cs)"
    by (subst (asm) adv_group_lines_spec) (auto simp: set_first_keys)
  from y have "filter (\<lambda>c. py_round 1 (c_y0 c) = y) cs \<noteq> []"
    by (auto simp: filter_empty_conv)
  with e show ?thesis by simp
qed

lemma sorted_lines_keys:
  "set (map fst (sorted_lines cs)) = (\<lambda>c. py_round 2 (c_y0 c)) ` set cs"
proof -
  have "set (map fst (sorted_lines cs)) = set (map fst (group_lines cs))"
    by (simp add: sorted_lines_def py_sorted_rev_def)
  also have "\<dots> = set (first_keys (map (\<lambda>c. py_round 2 (c_y0 c)) cs))"
    by (simp only: group_lines_spec map_map comp_def fst_conv map_ident)
  finally show ?thesis by (simp add: set_first_keys)
qed

lemma most_common_font_ok: "fonts \<noteq> [] \<Longrightarrow> \<exists>f. most_common_font u fonts = Inr f"
proof -
  assume "fonts \<noteq> []"
  then have "rev (remdups (rev fonts)) \<noteq> []" by simp
  then have "length (py_set_iter u fonts) \<noteq> 0" by (simp add: py_set_iter_def)
  then obtain x xs where "py_set_iter u fonts = x # xs"
    by (cases "py_set_iter u fonts") auto
  then show ?thesis by (simp add: most_common_font_def)
qed

lemma line_block_ok:
  assumes "cs \<noteq> []"
  shows "line_block u (y, line_of cs) = Inr (block_of u cs)"
proof -
  from assms obtain f where f: "most_common_font u (map font_or_default cs) = Inr f"
    using most_common_font_ok [of "map font_or_default cs" u] by auto
  from assms have avg: "py_avg (map size_or_12 cs)
                        = Inr (sum_list (map size_or_12 cs) / real (length cs))"
    by (simp add: py_avg_def)
  show ?thesis
    by (simp add: line_block_def block_of_def Let_def line_of_def avg f)
qed

lemma collect_map:
  "(\<And>x. x \<in> set xs \<Longrightarrow> f x = Inr (g x)) \<Longrightarrow> collect f xs = Inr (map g xs)"
  by (induction xs) simp_all

lemma analyze_text_blocks_eq:
  "analyze_text_blocks u cs = Inr (map (\<lambda>e. block_of u (ld_chars (snd e))) (sorted_lines cs))"
  unfolding analyze_text_blocks_def
proof (rule collect_map)
  fix e assume "e \<in> set (sorted_lines cs)"
  from sorted_lines_entry [OF this]
  obtain xs where xs: "snd e = line_of xs" "xs \<noteq> []" by blast
  have "line_block u e = line_block u (fst e, line_of xs)"
    using xs by (metis prod.collapse)
  also have "\<dots> = Inr (block_of u xs)" by (rule line_block_ok [OF xs(2)])
  finally show "line_block u e = Inr (block_of u (ld_chars (snd e)))"
    using xs by (simp add: line_of_def)
qed

lemma block_of_text: "tb_text (block_of u cs) = line_text u cs"
  by (simp add: block_of_def Let_def empty_block_def)

lemma py_round_quantized:
  "\<exists>k::int. py_round nd x = of_int k / 10 ^ nd \<and> \<bar>x - py_round nd x\<bar> \<le> 1 / (2 * 10 ^ nd)"
proof -
  define s where "s = x * 10 ^ nd"
  define f where "f = \<lfloor>s\<rfloor>"
  define d where "d = s - of_int f"
  define n where "n = (if d < 1 / 2 then f else if 1 / 2 < d then f + 1
                       else if even f then f else f + 1)"
  have r: "py_round nd x = of_int n / 10 ^ nd"
    by (simp add: py_round_def Let_def s_def f_def d_def n_def)
  have d: "0 \<le> d" "d < 1"
    unfolding d_def f_def by linarith+
  have close: "\<bar>s - of_int n\<bar> \<le> 1 / 2"
    using d unfolding n_def d_def by (auto simp: abs_if)
  have pos: "(0::real) < 10 ^ nd" by simp
  have "x - of_int n / 10 ^ nd = (s - of_int n) / 10 ^ nd"
    using pos by (simp add: s_def field_simps)
  then have "\<bar>x - of_int n / 10 ^ nd\<bar> = \<bar>s - of_int n\<bar> / 10 ^ nd"
    using pos by (simp add: abs_divide)
  also have "\<dots> \<le> (1 / 2) / 10 ^ nd"
    using close pos by (intro divide_right_mono) simp_all
  finally have "\<bar>x - py_round nd x\<bar> \<le> 1 / (2 * 10 ^ nd)"
    by (simp add: r)
  with r show ?thesis by blast
qed

lemma adv_sorted_lines_keys:
  "set (map fst (adv_sorted_lines cs)) = (\<lambda>c. py_round 1 (c_y0 c)) ` set cs"
proof -
  have "set (map fst (adv_sorted_lines cs)) = set (map fst (adv_group_lines cs))"
    by (simp add: adv_sorted_lines_def py_sorted_rev_def)
  also have "\<dots> = set (first_keys (map (\<lambda>c. py_round 1 (c_y0 c)) cs))"
    by (simp only: adv_group_lines_spec map_map comp_def fst_conv map_ident)
  finally show ?thesis by (simp add: set_first_keys)
qed

section \<open>Properties of the table emitter\<close>

lemma write_cells_length: "length (write_cells u sz xs r) = length r"
  by (induction xs arbitrary: r) simp_all

lemma write_cells_nth:
  "j < length r \<Longrightarrow>
   write_cells u sz (enumerate j0 cells) r ! j =
     (if j0 \<le> j \<and> j < j0 + length cells \<and> truthy (cells ! (j - j0))
      then written_cell u sz (cells ! (j - j0)) else r ! j)"
proof (induction cells arbitrary: j0 r)
  case Nil
  then show ?case by auto
next
  case (Cons c cells)
  let ?r = "if truthy c then r[j0 := written_cell u sz c] else r"
  have len: "j < length ?r" using Cons.prems by simp
  have "write_cells u sz (enumerate j0 (c # cells)) r ! j
          = write_cells u sz (enumerate (Suc j0) cells) ?r ! j"
    by simp
  also have "\<dots> = (if Suc j0 \<le> j \<and> j < Suc j0 + length cells \<and> truthy (cells ! (j - Suc j0))
                     then written_cell u sz (cells ! (j - Suc j0)) else ?r ! j)"
    by (rule Cons.IH [OF len])
  also have "\<dots> = (if j0 \<le> j \<and> j < j0 + length (c # cells) \<and> truthy ((c # cells) ! (j - j0))
                     then written_cell u sz ((c # cells) ! (j - j0)) else r ! j)"
  proof (cases "j = j0")
    case True
    with Cons.prems show ?thesis by simp
  next
    case False
    then show ?thesis
      by (cases "j0 \<le> j") (auto simp: nth_Cons' Suc_le_eq)
  qed
  finally show ?case .
qed

lemma clean_cell_written: "clean_cell u c \<Longrightarrow> accepted (ce_text (written_cell u sz c))"
  by (cases c) (simp_all add: clean_cell_def written_cell_def accepted_def py_strip_def)

lemma written_clean_cell: "accepted (ce_text (written_cell u sz c)) \<Longrightarrow> clean_cell u c"
  by (cases c) (simp_all add: clean_cell_def written_cell_def)

lemma falsy_clean_cell: "\<not> truthy c \<Longrightarrow> clean_cell u c"
  by (cases c) (simp_all add: clean_cell_def truthy_def accepted_def py_strip_def)

lemma fill_row_ok:
  "i < length t \<Longrightarrow> j0 + length cells \<le> length (t ! i) \<Longrightarrow>
   list_all (clean_cell u) cells \<Longrightarrow>
   fill_row u sz i (enumerate j0 cells) t
     = Inr (t[i := write_cells u sz (enumerate j0 cells) (t ! i)])"
proof (induction cells arbitrary: j0 t)
  case Nil
  then show ?case by simp
next
  case (Cons c cells)
  show ?case
  proof (cases "truthy c")
    case True
    let ?t = "t[i := (t ! i)[j0 := written_cell u sz c]]"
    have set: "set_cell t i j0 (written_cell u sz c) = Inr ?t"
      using Cons.prems by (simp add: set_cell_def clean_cell_written)
    have "fill_row u sz i (enumerate (Suc j0) cells) ?t
            = Inr (?t[i := write_cells u sz (enumerate (Suc j0) cells) (?t ! i)])"
      using Cons.prems by (intro Cons.IH) simp_all
    with True set Cons.prems show ?thesis by simp
  next
    case False
    have "fill_row u sz i (enumerate (Suc j0) cells) t
            = Inr (t[i := write_cells u sz (enumerate (Suc j0) cells) (t ! i)])"
      using Cons.prems by (intro Cons.IH) simp_all
    with False show ?thesis by simp
  qed
qed

lemma fill_rows_ok:
  assumes "i0 + length rows \<le> length t"
    and "\<forall>r \<in> set t. length r = n"
    and "\<forall>row \<in> set rows. length row \<le> n"
    and "list_all (list_all (clean_cell u)) rows"
  shows "\<exists>t'. fill_rows u sz (enumerate i0 rows) t = Inr t'
           \<and> length t' = length t
           \<and> (\<forall>k < length t. t' ! k =
                 (if i0 \<le> k \<and> k < i0 + length rows
                  then write_cells u sz (enumerate 0 (rows ! (k - i0))) (t ! k) else t ! k))"
  using assms
proof (induction rows arbitrary: i0 t)
  case Nil
  then show ?case by auto
next
  case (Cons row rows)
  let ?t = "t[i0 := write_cells u sz (enumerate 0 row) (t ! i0)]"
  have i0: "i0 < length t" using Cons.prems(1) by simp
  then have "length (t ! i0) = n" using Cons.prems(2) by simp
  then have row: "fill_row u sz i0 (enumerate 0 row) t = Inr ?t"
    using Cons.prems(3,4) i0 by (intro fill_row_ok) simp_all
  have all: "\<forall>r \<in> set ?t. length r = n"
  proof
    fix r assume "r \<in> set ?t"
    then have "r \<in> insert (write_cells u sz (enumerate 0 row) (t ! i0)) (set t)"
      using set_update_subset_insert by fast
    with Cons.prems(2) \<open>length (t ! i0) = n\<close> show "length r = n"
      by (auto simp: write_cells_length)
  qed
  have "\<exists>t'. fill_rows u sz (enumerate (Suc i0) rows) ?t = Inr t'
           \<and> length t' = length ?t
           \<and> (\<forall>k < length ?t. t' ! k =
                 (if Suc i0 \<le> k \<and> k < Suc i0 + length rows
                  then write_cells u sz (enumerate 0 (rows ! (k - Suc i0))) (?t ! k) else ?t ! k))"
    using Cons.prems all by (intro Cons.IH) simp_all
  then obtain t' where t': "fill_rows u sz (enumerate (Suc i0) rows) ?t = Inr t'"
    "length t' = length t"
    "\<forall>k < length t. t' ! k =
                 (if Suc i0 \<le> k \<and> k < Suc i0 + length rows
                  then write_cells u sz (enumerate 0 (rows ! (k - Suc i0))) (?t ! k) else ?t ! k)"
    by auto
  have "\<forall>k < length t. t' ! k =
                 (if i0 \<le> k \<and> k < i0 + length (row # rows)
                  then write_cells u sz (enumerate 0 ((row # rows) ! (k - i0))) (t ! k) else t ! k)"
  proof (intro allI impI)
    fix k assume k: "k < length t"
    show "t' ! k = (if i0 \<le> k \<and> k < i0 + length (row # rows)
                  then write_cells u sz (enumerate 0 ((row # rows) ! (k - i0))) (t ! k) else t ! k)"
    proof (cases "k = i0")
      case True
      with t'(3) k show ?thesis by simp
    next
      case False
      with t'(3) k show ?thesis
        by (cases "i0 \<le> k") (auto simp: nth_Cons' Suc_le_eq)
    qed
  qed
  with t' row show ?case by simp
qed

lemma fill_table_ok:
  assumes "fits table_data" and "grid_clean u table_data"
  shows "fill_table u sz table_data = Inr (expected_table u sz table_data)"
proof -
  let ?n = "length (hd table_data)"
  let ?t = "new_table (length table_data) ?n"
  from assms have rows: "\<forall>row \<in> set table_data. length row \<le> ?n"
    by (simp add: fits_def list_all_iff)
  have "\<exists>t'. fill_rows u sz (enumerate 0 table_data) ?t = Inr t'
           \<and> length t' = length ?t
           \<and> (\<forall>k < length ?t. t' ! k =
                 (if 0 \<le> k \<and> k < 0 + length table_data
                  then write_cells u sz (enumerate 0 (table_data ! (k - 0))) (?t ! k) else ?t ! k))"
    using rows assms(2)
    by (intro fill_rows_ok [where n = ?n]) (simp_all add: new_table_def grid_clean_def)
  then obtain t' where t': "fill_table u sz table_data = Inr t'"
    "length t' = length table_data"
    "\<forall>k < length table_data. t' ! k
        = write_cells u sz (enumerate 0 (table_data ! k)) (replicate ?n blank_cell)"
    by (auto simp: fill_table_def new_table_def)
  have "t' = expected_table u sz table_data"
  proof (rule nth_equalityI)
    show "length t' = length (expected_table u sz table_data)"
      using t'(2) by (simp add: expected_table_def)
  next
    fix k assume "k < length t'"
    then have k: "k < length table_data" using t'(2) by simp
    have "write_cells u sz (enumerate 0 (table_data ! k)) (replicate ?n blank_cell)
            = map (\<lambda>j. if j < length (table_data ! k) \<and> truthy (table_data ! k ! j)
                           then written_cell u sz (table_data ! k ! j) else blank_cell)
                    [0..<?n]"
      by (rule nth_equalityI) (simp_all add: write_cells_length write_cells_nth)
    with t'(3) k show "t' ! k = expected_table u sz table_data ! k"
      by (simp add: expected_table_def)
  qed
  with t'(1) show ?thesis by simp
qed

lemma set_cell_Inr:
  "set_cell t i j v = Inr t' \<Longrightarrow>
   i < length t \<and> j < length (t ! i) \<and> accepted (ce_text v)
   \<and> t' = t[i := (t ! i)[j := v]]"
  by (auto simp: set_cell_def split: if_splits)

lemma map_length_update:
  "i < length t \<Longrightarrow> map length (t[i := (t ! i)[j := v]]) = map length t"
  by (simp add: map_update list_update_same_conv)

lemma same_lengths_nth:
  "map length t1 = map length t \<Longrightarrow> k < length t \<Longrightarrow> length (t1 ! k) = length (t ! k)"
  by (metis length_map nth_map)

lemma fill_row_Inr:
  "fill_row u sz i (enumerate j0 cells) t = Inr t' \<Longrightarrow>
   (\<forall>j < length cells. truthy (cells ! j)
       \<longrightarrow> i < length t \<and> j0 + j < length (t ! i) \<and> clean_cell u (cells ! j))
   \<and> map length t' = map length t"
proof (induction cells arbitrary: j0 t)
  case Nil
  then show ?case by simp
next
  case (Cons c cells)
  show ?case
  proof (cases "truthy c")
    case True
    with Cons.prems obtain t1 where
      t1: "set_cell t i j0 (written_cell u sz c) = Inr t1"
      and rest: "fill_row u sz i (enumerate (Suc j0) cells) t1 = Inr t'"
      by (auto split: sum.splits)
    from set_cell_Inr [OF t1] have b: "i < length t" "j0 < length (t ! i)" "clean_cell u c"
      and t1_eq: "t1 = t[i := (t ! i)[j0 := written_cell u sz c]]"
      by (auto intro: written_clean_cell)
    have len: "map length t1 = map length t"
      unfolding t1_eq by (rule map_length_update [OF b(1)])
    then have "length (t1 ! i) = length (t ! i)"
      using b(1) by (rule same_lengths_nth)
    with Cons.IH [OF rest] len
    have ih: "\<forall>j < length cells. truthy (cells ! j)
                \<longrightarrow> Suc j0 + j < length (t ! i) \<and> clean_cell u (cells ! j)"
      and len': "map length t' = map length t" by auto
    have "\<forall>j < length (c # cells). truthy ((c # cells) ! j)
            \<longrightarrow> i < length t \<and> j0 + j < length (t ! i) \<and> clean_cell u ((c # cells) ! j)"
    proof (intro allI impI)
      fix j assume "j < length (c # cells)" "truthy ((c # cells) ! j)"
      then show "i < length t \<and> j0 + j < length (t ! i) \<and> clean_cell u ((c # cells) ! j)"
        using ih b by (cases j) auto
    qed
    with len' show ?thesis by simp
  next
    case False
    with Cons.prems have rest: "fill_row u sz i (enumerate (Suc j0) cells) t = Inr t'"
      by simp
    from Cons.IH [OF rest]
    have ih: "\<forall>j < length cells. truthy (cells ! j)
                \<longrightarrow> i < length t \<and> Suc j0 + j < length (t ! i) \<and> clean_cell u (cells ! j)"
      and len': "map length t' = map length t" by auto
    have "\<forall>j < length (c # cells). truthy ((c # cells) ! j)
            \<longrightarrow> i < length t \<and> j0 + j < length (t ! i) \<and> clean_cell u ((c # cells) ! j)"
    proof (intro allI impI)
      fix j assume "j < length (c # cells)" "truthy ((c # cells) ! j)"
      then show "i < length t \<and> j0 + j < length (t ! i) \<and> clean_cell u ((c # cells) ! j)"
        using ih False by (cases j) auto
    qed
    with len' show ?thesis by simp
  qed
qed

lemma fill_rows_Inr:
  "fill_rows u sz (enumerate i0 rows) t = Inr t' \<Longrightarrow>
   (\<forall>i < length rows. \<forall>j < length (rows ! i).
       truthy (rows ! i ! j)
       \<longrightarrow> i0 + i < length t \<and> j < length (t ! (i0 + i)) \<and> clean_cell u (rows ! i ! j))"
proof (induction rows arbitrary: i0 t)
  case Nil
  then show ?case by simp
next
  case (Cons row rows)
  from Cons.prems obtain t1 where
    t1: "fill_row u sz i0 (enumerate 0 row) t = Inr t1"
    and rest: "fill_rows u sz (enumerate (Suc i0) rows) t1 = Inr t'"
    by (auto split: sum.splits)
  from fill_row_Inr [OF t1]
  have here: "\<forall>j < length row. truthy (row ! j)
                \<longrightarrow> i0 < length t \<and> j < length (t ! i0) \<and> clean_cell u (row ! j)"
    and len: "map length t1 = map length t" by auto
  from len have len1: "length t1 = length t" by (metis length_map)
  have later: "\<forall>i < length rows. \<forall>j < length (rows ! i).
       truthy (rows ! i ! j)
       \<longrightarrow> Suc i0 + i < length t \<and> j < length (t ! (Suc i0 + i)) \<and> clean_cell u (rows ! i ! j)"
  proof (intro allI impI)
    fix i j assume a: "i < length rows" "j < length (rows ! i)" "truthy (rows ! i ! j)"
    with Cons.IH [OF rest]
    have b: "Suc i0 + i < length t1" "j < length (t1 ! (Suc i0 + i))" "clean_cell u (rows ! i ! j)"
      by auto
    from b(1) len1 have c: "Suc i0 + i < length t" by simp
    from same_lengths_nth [OF len c] b c
    show "Suc i0 + i < length t \<and> j < length (t ! (Suc i0 + i)) \<and> clean_cell u (rows ! i ! j)"
      by simp
  qed
  show ?case
  proof (intro allI impI)
    fix i j
    assume "i < length (row # rows)" "j < length ((row # rows) ! i)"
      "truthy ((row # rows) ! i ! j)"
    then show "i0 + i < length t \<and> j < length (t ! (i0 + i))
               \<and> clean_cell u ((row # rows) ! i ! j)"
      using here later by (cases i) auto
  qed
qed

lemma fill_row_error_kind:
  "fill_row u sz i cells t = Inl e \<Longrightarrow> e = IndexError \<or> e = ValueError"
  by (induction cells arbitrary: t)
     (auto simp: set_cell_def split: if_splits sum.splits)

lemma fill_rows_error_kind:
  "fill_rows u sz rows t = Inl e \<Longrightarrow> e = IndexError \<or> e = ValueError"
  by (induction rows arbitrary: t) (auto split: sum.splits dest: fill_row_error_kind)

lemma fill_row_clean_error:
  "\<forall>jc \<in> set cells. clean_cell u (snd jc) \<Longrightarrow> fill_row u sz i cells t = Inl e
   \<Longrightarrow> e = IndexError"
  by (induction cells arbitrary: t)
     (auto simp: set_cell_def clean_cell_written split: if_splits sum.splits)

lemma fill_rows_clean_error:
  "\<forall>ir \<in> set rows. list_all (clean_cell u) (snd ir) \<Longrightarrow> fill_rows u sz rows t = Inl e
   \<Longrightarrow> e = IndexError"
proof (induction rows arbitrary: t)
  case Nil
  then show ?case by simp
next
  case (Cons ir rows)
  from Cons.prems(1) have here: "\<forall>jc \<in> set (enumerate 0 (snd ir)). clean_cell u (snd jc)"
    by (auto simp: list_all_iff in_set_enumerate_eq)
  show ?case
  proof (cases "fill_row u sz (fst ir) (enumerate 0 (snd ir)) t")
    case (Inl e1)
    with Cons.prems(2) have "e = e1" by simp
    with fill_row_clean_error [OF here Inl] show ?thesis by simp
  next
    case (Inr t1)
    with Cons.prems(2) have "fill_rows u sz rows t1 = Inl e" by simp
    with Cons.IH [of t1] Cons.prems(1) show ?thesis by simp
  qed
qed

lemma fill_row_no_index_error:
  "i < length t \<Longrightarrow> j0 + length cells \<le> length (t ! i) \<Longrightarrow>
   fill_row u sz i (enumerate j0 cells) t \<noteq> Inl IndexError"
proof (induction cells arbitrary: j0 t)
  case Nil
  then show ?case by simp
next
  case (Cons c cells)
  show ?case
  proof (cases "truthy c \<and> accepted (ce_text (written_cell u sz c))")
    case True
    let ?t = "t[i := (t ! i)[j0 := written_cell u sz c]]"
    have set: "set_cell t i j0 (written_cell u sz c) = Inr ?t"
      using Cons.prems True by (simp add: set_cell_def)
    have "fill_row u sz i (enumerate (Suc j0) cells) ?t \<noteq> Inl IndexError"
      using Cons.prems by (intro Cons.IH) simp_all
    with True set show ?thesis by simp
  next
    case False
    show ?thesis
    proof (cases "truthy c")
      case True
      with False have "set_cell t i j0 (written_cell u sz c) = Inl ValueError"
        using Cons.prems by (simp add: set_cell_def)
      with True show ?thesis by simp
    next
      case False
      have "fill_row u sz i (enumerate (Suc j0) cells) t \<noteq> Inl IndexError"
        using Cons.prems by (intro Cons.IH) simp_all
      with False show ?thesis by simp
    qed
  qed
qed

lemma fill_rows_no_index_error:
  assumes "i0 + length rows \<le> length t"
    and "\<forall>k < length t. length (t ! k) = n"
    and "\<forall>row \<in> set rows. length row \<le> n"
  shows "fill_rows u sz (enumerate i0 rows) t \<noteq> Inl IndexError"
  using assms
proof (induction rows arbitrary: i0 t)
  case Nil
  then show ?case by simp
next
  case (Cons row rows)
  have i0: "i0 < length t" using Cons.prems(1) by simp
  with Cons.prems have here: "fill_row u sz i0 (enumerate 0 row) t \<noteq> Inl IndexError"
    by (intro fill_row_no_index_error) simp_all
  show ?case
  proof (cases "fill_row u sz i0 (enumerate 0 row) t")
    case (Inl e)
    with here show ?thesis by auto
  next
    case (Inr t1)
    from fill_row_Inr [OF Inr] have len: "map length t1 = map length t" by simp
    then have len1: "length t1 = length t" by (metis length_map)
    have "\<forall>k < length t1. length (t1 ! k) = n"
      using same_lengths_nth [OF len] len1 Cons.prems(2) by simp
    with Cons.prems len1
    have "fill_rows u sz (enumerate (Suc i0) rows) t1 \<noteq> Inl IndexError"
      by (intro Cons.IH) simp_all
    with Inr show ?thesis by simp
  qed
qed

lemma fill_table_no_index_error:
  assumes "fits table_data"
  shows "fill_table u sz table_data \<noteq> Inl IndexError"
  unfolding fill_table_def using assms
  by (intro fill_rows_no_index_error [where n = "length (hd table_data)"])
     (simp_all add: new_table_def fits_def list_all_iff)

lemma fill_table_Inr_clean:
  assumes "fill_table u sz table_data = Inr t'"
  shows "grid_clean u table_data"
proof -
  from assms have "fill_rows u sz (enumerate 0 table_data)
               (new_table (length table_data) (length (hd table_data))) = Inr t'"
    by (simp add: fill_table_def)
  from fill_rows_Inr [OF this]
  have "\<forall>i < length table_data. \<forall>j < length (table_data ! i).
          truthy (table_data ! i ! j) \<longrightarrow> clean_cell u (table_data ! i ! j)" by blast
  then have "\<forall>i < length table_data. \<forall>j < length (table_data ! i).
          clean_cell u (table_data ! i ! j)"
    using falsy_clean_cell by blast
  then show ?thesis by (simp add: grid_clean_def list_all_length)
qed

lemma fill_table_unclean:
  assumes "fits table_data" and "\<not> grid_clean u table_data"
  shows "fill_table u sz table_data = Inl ValueError"
proof (cases "fill_table u sz table_data")
  case (Inl e)
  then have "e = IndexError \<or> e = ValueError"
    using fill_rows_error_kind [of u sz "enumerate 0 table_data" _ e]
    by (simp add: fill_table_def)
  with Inl fill_table_no_index_error [OF assms(1), of u sz] show ?thesis by auto
next
  case (Inr t')
  with fill_table_Inr_clean assms(2) show ?thesis by blast
qed

lemma fill_table_out_of_range:
  assumes "i < length table_data" and "j < length (table_data ! i)"
    and "truthy (table_data ! i ! j)" and "length (hd table_data) \<le> j"
  shows "(\<exists>e. fill_table u sz table_data = Inl e)
         \<and> (grid_clean u table_data \<longrightarrow> fill_table u sz table_data = Inl IndexError)"
proof (cases "fill_table u sz table_data")
  case (Inl e)
  have "e = IndexError" if "grid_clean u table_data"
  proof -
    from that have "\<forall>ir \<in> set (enumerate 0 table_data). list_all (clean_cell u) (snd ir)"
      by (auto simp: grid_clean_def list_all_iff in_set_enumerate_eq)
    from fill_rows_clean_error [OF this] Inl show ?thesis
      by (simp add: fill_table_def)
  qed
  with Inl show ?thesis by auto
next
  case (Inr t')
  then have "fill_rows u sz (enumerate 0 table_data)
               (new_table (length table_data) (length (hd table_data))) = Inr t'"
    by (simp add: fill_table_def)
  from fill_rows_Inr [OF this] assms(1-3)
  have "j < length (new_table (length table_data) (length (hd table_data)) ! i)"
    by auto
  with assms(1,4) show ?thesis by (simp add: new_table_def)
qed

section \<open>Properties of the matcher and of the string methods\<close>

text \<open>
  The equation of \<open>rx_run\<close> for a repetition mentions the repetition again, so
  none of the equations is left in the simplifier; they are unfolded where needed.
\<close>

declare rx_run.simps [simp del]

lemma rx_run_shorter:
  "k' \<in> set (rx_run w r k) \<Longrightarrow> length (snd k') \<le> length (snd k)"
proof (induction w r k arbitrary: k' rule: rx_run.induct)
  case (1 w p k)
  then show ?case by (cases "snd k") (auto simp: rx_run.simps split: if_splits)
next
  case (2 w a b k)
  from "2.prems" obtain k1 where k1: "k1 \<in> set (rx_run w a k)" "k' \<in> set (rx_run w b k1)"
    by (auto simp: rx_run.simps(2))
  from "2.IH"(1) [OF k1(1)] "2.IH"(2) [OF k1] show ?case by simp
next
  case (3 w a k)
  from "3.prems" consider "k' = k"
    | k1 where "k1 \<in> set (rx_run w a k)" "length (snd k1) < length (snd k)"
        "k' \<in> set (rx_run w (Star a) k1)"
    by (subst (asm) rx_run.simps) auto
  then show ?case
  proof cases
    case 1
    then show ?thesis by simp
  next
    case 2
    from "3.IH"(2) [of k1 k'] 2 show ?thesis by simp
  qed
next
  case (4 w a k)
  from "4.prems" have "k' \<in> set (rx_run w a k) \<or> k' = k"
    by (auto simp: rx_run.simps(4))
  then show ?case using "4.IH" [of k'] by auto
next
  case (5 w k)
  then show ?case by (auto simp: rx_run.simps(5) split: if_splits)
qed

lemma rx_run_consuming:
  "consuming r \<Longrightarrow> k' \<in> set (rx_run w r k) \<Longrightarrow> length (snd k') < length (snd k)"
proof (induction r arbitrary: k k')
  case (Cls p)
  then show ?case by (cases "snd k") (auto simp: rx_run.simps(1) split: if_splits)
next
  case (Cat a b)
  from Cat.prems(2) obtain k1 where k1: "k1 \<in> set (rx_run w a k)" "k' \<in> set (rx_run w b k1)"
    by (auto simp: rx_run.simps(2))
  from rx_run_shorter [OF k1(1)] rx_run_shorter [OF k1(2)]
  have le: "length (snd k1) \<le> length (snd k)" "length (snd k') \<le> length (snd k1)" by auto
  from Cat.prems(1) have "consuming a \<or> consuming b" by simp
  then show ?case
  proof
    assume "consuming a"
    from Cat.IH(1) [OF this k1(1)] le show ?thesis by simp
  next
    assume "consuming b"
    from Cat.IH(2) [OF this k1(2)] le show ?thesis by simp
  qed
qed simp_all

lemma re_sub_start_le: "length (re_sub_start u r s) \<le> length s"
proof (cases "rx_run (is_word u) r (None, s)")
  case Nil
  then show ?thesis by (simp add: re_sub_start_def)
next
  case (Cons k ks)
  then have "k \<in> set (rx_run (is_word u) r (None, s))" by simp
  from rx_run_shorter [OF this] Cons show ?thesis by (simp add: re_sub_start_def)
qed

lemma re_sub_start_lt:
  assumes "consuming r" and "re_match u r s"
  shows "length (re_sub_start u r s) < length s"
proof (cases "rx_run (is_word u) r (None, s)")
  case Nil
  with assms(2) show ?thesis by (simp add: re_match_def)
next
  case (Cons k ks)
  then have "k \<in> set (rx_run (is_word u) r (None, s))" by simp
  from rx_run_consuming [OF assms(1) this] Cons show ?thesis by (simp add: re_sub_start_def)
qed

lemma re_sub_start_id: "\<not> re_match u r s \<Longrightarrow> re_sub_start u r s = s"
  by (simp add: re_match_def re_sub_start_def)

lemma py_strip_le: "length (py_strip u s) \<le> length s"
proof -
  have "length (dropWhile (uc_isspace u) (rev (dropWhile (uc_isspace u) s)))
          \<le> length (rev (dropWhile (uc_isspace u) s))"
    by (rule length_dropWhile_le)
  also have "\<dots> \<le> length s" by (simp add: length_dropWhile_le)
  finally show ?thesis by (simp add: py_strip_def)
qed

lemma dropWhile_fixed: "xs = [] \<or> \<not> P (hd xs) \<Longrightarrow> dropWhile P xs = xs"
  by (cases xs) auto

lemma last_dropWhile_same: "dropWhile P ys \<noteq> [] \<Longrightarrow> last (dropWhile P ys) = last ys"
  by (induction ys) auto

lemma dropWhile_rev_dropWhile:
  "dropWhile P (rev (dropWhile P (rev (dropWhile P s)))) = rev (dropWhile P (rev (dropWhile P s)))"
proof (rule dropWhile_fixed)
  let ?a = "dropWhile P s"
  let ?b = "dropWhile P (rev ?a)"
  show "rev ?b = [] \<or> \<not> P (hd (rev ?b))"
  proof (cases "?b = []")
    case True
    then show ?thesis by simp
  next
    case False
    then have a: "?a \<noteq> []" by (cases "?a") simp_all
    have "hd (rev ?b) = last ?b" by (rule hd_rev)
    also have "\<dots> = last (rev ?a)" by (rule last_dropWhile_same [OF False])
    also have "\<dots> = hd ?a" by (rule last_rev)
    finally have "hd (rev ?b) = hd ?a" .
    moreover from a have "\<not> P (hd ?a)" by (rule hd_dropWhile)
    ultimately show ?thesis by simp
  qed
qed

lemma py_strip_idem: "py_strip u (py_strip u s) = py_strip u s"
  by (simp add: py_strip_def dropWhile_rev_dropWhile)

section \<open>Properties of the page loop\<close>

lemma add_table_prefix:
  "add_table u style sz doc g =
     (case add_table u style sz [] g of Inl e \<Rightarrow> Inl e | Inr ns \<Rightarrow> Inr (doc @ ns))"
  by (simp add: add_table_def split: sum.splits)

lemma add_tables_prefix:
  "add_tables u style sz doc gs =
     (case add_tables u style sz [] gs of Inl e \<Rightarrow> Inl e | Inr ns \<Rightarrow> Inr (doc @ ns))"
proof (induction gs arbitrary: doc)
  case Nil
  then show ?case by simp
next
  case (Cons g gs)
  show ?case
  proof (cases "add_table u style sz [] g")
    case (Inl e)
    then show ?thesis by (simp add: add_table_prefix [of u style sz doc])
  next
    case (Inr ns)
    then have "add_table u style sz doc g = Inr (doc @ ns)"
      by (simp add: add_table_prefix [of u style sz doc])
    with Inr show ?thesis
      using Cons.IH [of "doc @ ns"] Cons.IH [of ns]
      by (simp split: sum.splits)
  qed
qed

lemma add_table_part: "add_table u style sz [] g = Inr ns \<Longrightarrow> table_part ns"
  by (auto simp: add_table_def split: if_splits sum.splits)

lemma table_part_append: "table_part xs \<Longrightarrow> table_part ys \<Longrightarrow> table_part (xs @ ys)"
  by (induction xs rule: table_part.induct) simp_all

lemma add_tables_part: "add_tables u style sz [] gs = Inr ns \<Longrightarrow> table_part ns"
proof (induction gs arbitrary: ns)
  case Nil
  then show ?case by simp
next
  case (Cons g gs)
  from Cons.prems obtain n1 where n1: "add_table u style sz [] g = Inr n1"
    and rest: "add_tables u style sz n1 gs = Inr ns"
    by (auto split: sum.splits)
  from rest obtain n2 where n2: "add_tables u style sz [] gs = Inr n2" and ns: "ns = n1 @ n2"
    by (subst (asm) add_tables_prefix) (auto split: sum.splits)
  from add_table_part [OF n1] Cons.IH [OF n2] ns show ?case
    by (simp add: table_part_append)
qed

lemma add_paragraph_prefix:
  "add_paragraph doc p =
     (case add_paragraph [] p of Inl e \<Rightarrow> Inl e | Inr ns \<Rightarrow> Inr (doc @ ns))"
  by (simp add: add_paragraph_def)

lemma add_heading_prefix:
  "add_heading doc t l a ul =
     (case add_heading [] t l a ul of Inl e \<Rightarrow> Inl e | Inr ns \<Rightarrow> Inr (doc @ ns))"
  by (simp add: add_heading_def)

lemma add_paragraph_nodes: "add_paragraph [] p = Inr ns \<Longrightarrow> list_all is_text_node ns"
  by (auto simp: add_paragraph_def split: if_splits)

lemma add_heading_nodes: "add_heading [] t l a ul = Inr ns \<Longrightarrow> list_all is_text_node ns"
  by (auto simp: add_heading_def split: if_splits)

lemma run_loop_prefix:
  assumes "\<And>doc x. f doc x = (case f [] x of Inl e \<Rightarrow> Inl e | Inr ns \<Rightarrow> Inr (doc @ ns))"
  shows "run_loop f doc xs =
           (case run_loop f [] xs of Inl e \<Rightarrow> Inl e | Inr ns \<Rightarrow> Inr (doc @ ns))"
proof (induction xs arbitrary: doc)
  case Nil
  then show ?case by simp
next
  case (Cons x xs)
  show ?case
  proof (cases "f [] x")
    case (Inl e)
    then show ?thesis by (simp add: assms [of doc])
  next
    case (Inr ns)
    then have "f doc x = Inr (doc @ ns)" by (simp add: assms [of doc])
    with Inr show ?thesis
      using Cons.IH [of "doc @ ns"] Cons.IH [of ns]
      by (simp split: sum.splits)
  qed
qed

lemma run_loop_text_nodes:
  assumes "\<And>doc x. f doc x = (case f [] x of Inl e \<Rightarrow> Inl e | Inr ns \<Rightarrow> Inr (doc @ ns))"
    and "\<And>x ns. f [] x = Inr ns \<Longrightarrow> list_all is_text_node ns"
  shows "run_loop f [] xs = Inr ns \<Longrightarrow> list_all is_text_node ns"
proof (induction xs arbitrary: ns)
  case Nil
  then show ?case by simp
next
  case (Cons x xs)
  from Cons.prems obtain n1 where n1: "f [] x = Inr n1" and rest: "run_loop f n1 xs = Inr ns"
    by (auto split: sum.splits)
  from rest obtain n2 where n2: "run_loop f [] xs = Inr n2" and ns: "ns = n1 @ n2"
    by (subst (asm) run_loop_prefix [of f, OF assms(1)]) (auto split: sum.splits)
  from assms(2) [OF n1] Cons.IH [OF n2] ns show ?case by simp
qed

lemma block_prefix:
  "add_formatted_text_block u doc block =
     (case add_formatted_text_block u [] block of
        Inl e \<Rightarrow> Inl e | Inr ns \<Rightarrow> Inr (doc @ ns))"
  by (cases "tb_kind block")
     (simp_all add: add_formatted_text_block_def Let_def add_paragraph_def add_heading_def)

lemma block_text_nodes:
  "add_formatted_text_block u [] block = Inr ns \<Longrightarrow> list_all is_text_node ns"
  by (cases "tb_kind block")
     (auto simp: add_formatted_text_block_def Let_def add_paragraph_def add_heading_def
           split: if_splits)

lemma smart_line_prefix:
  "smart_line u doc raw =
     (case smart_line u [] raw of Inl e \<Rightarrow> Inl e | Inr ns \<Rightarrow> Inr (doc @ ns))"
  by (simp add: smart_line_def Let_def add_paragraph_def add_heading_def)

lemma smart_line_text_nodes: "smart_line u [] raw = Inr ns \<Longrightarrow> list_all is_text_node ns"
  by (auto simp: smart_line_def Let_def add_paragraph_def add_heading_def split: if_splits)

lemma ultra_page_text_prefix:
  "ultra_page_text u doc p =
     (case ultra_page_text u [] p of Inl e \<Rightarrow> Inl e | Inr ns \<Rightarrow> Inr (doc @ ns))"
  using run_loop_prefix [of "add_formatted_text_block u" doc, OF block_prefix]
        run_loop_prefix [of "smart_line u" doc, OF smart_line_prefix]
  by (simp add: ultra_page_text_def smart_text_parsing_def split: sum.splits option.splits)

lemma ultra_page_text_nodes: "ultra_page_text u [] p = Inr ns \<Longrightarrow> list_all is_text_node ns"
  using run_loop_text_nodes [of "add_formatted_text_block u", OF block_prefix block_text_nodes]
        run_loop_text_nodes [of "smart_line u", OF smart_line_prefix smart_line_text_nodes]
  by (auto simp: ultra_page_text_def smart_text_parsing_def
           split: sum.splits option.splits if_splits)

lemma ultra_pages_layout:
  "ultra_pages u n doc pages = Inr out \<Longrightarrow>
   \<exists>segs. list_all2 (ultra_segment u) pages segs \<and> out = doc @ layout n segs"
proof (induction pages arbitrary: n doc out)
  case Nil
  then show ?case by simp
next
  case (Cons p ps)
  let ?brk = "if n > 1 then [Page_break] else []"
  from Cons.prems obtain doc2 doc3 where
    d2: "ultra_tables u (doc @ ?brk) (pg_tables p) = Inr doc2"
    and d3: "ultra_page_text u doc2 p = Inr doc3"
    and rest: "ultra_pages u (n + 1) doc3 ps = Inr out"
    by (auto simp: Let_def split: sum.splits if_splits)
  from d2 have "add_tables u ''Light Grid Accent 1'' (Some 11) (doc @ ?brk) (pg_tables p) = Inr doc2"
    by (simp add: ultra_tables_def)
  then obtain tabs where tabs: "ultra_tables u [] (pg_tables p) = Inr tabs"
    and doc2: "doc2 = doc @ ?brk @ tabs"
    by (subst (asm) add_tables_prefix) (auto simp: ultra_tables_def split: sum.splits)
  from d3 obtain tx where tx: "ultra_page_text u [] p = Inr tx" and doc3: "doc3 = doc2 @ tx"
    by (subst (asm) ultra_page_text_prefix) (auto split: sum.splits)
  from Cons.IH [OF rest] obtain segs where
    segs: "list_all2 (ultra_segment u) ps segs" "out = doc3 @ layout (n + 1) segs" by blast
  have "ultra_segment u p (tabs, tx)"
    using tabs tx add_tables_part [of u _ _ "pg_tables p" tabs] ultra_page_text_nodes [OF tx]
    by (simp add: ultra_segment_def ultra_tables_def)
  with segs doc2 doc3
  have "list_all2 (ultra_segment u) (p # ps) ((tabs, tx) # segs)
        \<and> out = doc @ layout n ((tabs, tx) # segs)" by simp
  then show ?case by blast
qed

lemma add_bullet_point_prefix:
  "add_bullet_point u doc t =
     (case add_bullet_point u [] t of Inl e \<Rightarrow> Inl e | Inr ns \<Rightarrow> Inr (doc @ ns))"
  by (simp add: add_bullet_point_def Let_def add_paragraph_def)

lemma add_bullet_point_nodes: "add_bullet_point u [] t = Inr ns \<Longrightarrow> list_all is_text_node ns"
  by (auto simp: add_bullet_point_def Let_def add_paragraph_def split: if_splits)

lemma add_formatted_paragraph_prefix:
  "add_formatted_paragraph u doc t =
     (case add_formatted_paragraph u [] t of Inl e \<Rightarrow> Inl e | Inr ns \<Rightarrow> Inr (doc @ ns))"
  using add_bullet_point_prefix [of u doc]
  by (simp add: add_formatted_paragraph_def Let_def add_paragraph_def add_heading_def)

lemma add_formatted_paragraph_nodes:
  "add_formatted_paragraph u [] t = Inr ns \<Longrightarrow> list_all is_text_node ns"
  using add_bullet_point_nodes [of u]
  by (auto simp: add_formatted_paragraph_def Let_def add_paragraph_def add_heading_def
           split: if_splits)

lemma adv_fallback_line_prefix:
  "adv_fallback_line u doc raw =
     (case adv_fallback_line u [] raw of Inl e \<Rightarrow> Inl e | Inr ns \<Rightarrow> Inr (doc @ ns))"
  using add_bullet_point_prefix [of u doc]
  by (simp add: adv_fallback_line_def Let_def add_paragraph_def add_heading_def)

lemma adv_fallback_line_nodes:
  "adv_fallback_line u [] raw = Inr ns \<Longrightarrow> list_all is_text_node ns"
  using add_bullet_point_nodes [of u]
  by (auto simp: adv_fallback_line_def Let_def add_paragraph_def add_heading_def
           split: if_splits)

lemma adv_line_step_prefix:
  "adv_line_step u (doc, cur) entry =
     (case adv_line_step u ([], cur) entry of
        Inl e \<Rightarrow> Inl e | Inr st \<Rightarrow> Inr (doc @ fst st, snd st))"
proof -
  let ?flush = "add_formatted_paragraph u [] (py_join [32] cur)"
  have flush: "add_formatted_paragraph u doc (py_join [32] cur)
                 = (case ?flush of Inl e \<Rightarrow> Inl e | Inr ns \<Rightarrow> Inr (doc @ ns))"
    by (rule add_formatted_paragraph_prefix)
  show ?thesis
  proof (cases ?flush)
    case (Inl e)
    with flush show ?thesis
      by (auto simp: adv_line_step_def Let_def split: sum.splits)
  next
    case (Inr ns)
    with flush have f2: "add_formatted_paragraph u doc (py_join [32] cur) = Inr (doc @ ns)"
      by simp
    show ?thesis
      by (auto simp: adv_line_step_def Let_def Inr f2 add_paragraph_def add_heading_def
               split: sum.splits)
  qed
qed

lemma adv_line_step_nodes:
  "adv_line_step u ([], cur) entry = Inr st \<Longrightarrow> list_all is_text_node (fst st)"
  using add_formatted_paragraph_nodes [of u "py_join [32] cur"]
  by (auto simp: adv_line_step_def Let_def add_paragraph_def add_heading_def
           split: sum.splits if_splits)

lemma adv_lines_prefix:
  "adv_lines u (doc, cur) ls =
     (case adv_lines u ([], cur) ls of
        Inl e \<Rightarrow> Inl e | Inr st \<Rightarrow> Inr (doc @ fst st, snd st))"
proof (induction ls arbitrary: doc cur)
  case Nil
  then show ?case by simp
next
  case (Cons entry ls)
  show ?case
  proof (cases "adv_line_step u ([], cur) entry")
    case (Inl e)
    then show ?thesis by (simp add: adv_line_step_prefix [of u doc])
  next
    case (Inr st)
    then have "adv_line_step u (doc, cur) entry = Inr (doc @ fst st, snd st)"
      by (simp add: adv_line_step_prefix [of u doc])
    with Inr show ?thesis
      using Cons.IH [of "doc @ fst st" "snd st"] Cons.IH [of "fst st" "snd st"]
      by (simp split: sum.splits)
  qed
qed

lemma adv_lines_nodes:
  "adv_lines u ([], cur) ls = Inr st \<Longrightarrow> list_all is_text_node (fst st)"
proof (induction ls arbitrary: cur st)
  case Nil
  then show ?case by auto
next
  case (Cons entry ls)
  from Cons.prems obtain s1 where s1: "adv_line_step u ([], cur) entry = Inr s1"
    and rest: "adv_lines u s1 ls = Inr st"
    by (auto split: sum.splits)
  from rest have "adv_lines u (fst s1, snd s1) ls = Inr st" by simp
  then obtain s2 where s2: "adv_lines u ([], snd s1) ls = Inr s2"
    and st: "st = (fst s1 @ fst s2, snd s2)"
    by (subst (asm) adv_lines_prefix) (auto split: sum.splits)
  from adv_line_step_nodes [OF s1] Cons.IH [OF s2] st show ?case by simp
qed

lemma adv_chars_text_prefix:
  "adv_chars_text u doc chars =
     (case adv_chars_text u [] chars of Inl e \<Rightarrow> Inl e | Inr ns \<Rightarrow> Inr (doc @ ns))"
proof (cases "adv_lines u ([], []) (adv_sorted_lines chars)")
  case (Inl e)
  then show ?thesis
    by (simp add: adv_chars_text_def adv_lines_prefix [of u doc])
next
  case (Inr st)
  then show ?thesis
    using add_formatted_paragraph_prefix [of u "doc @ fst st"]
          add_formatted_paragraph_prefix [of u "fst st"]
    by (simp add: adv_chars_text_def adv_lines_prefix [of u doc] split: sum.splits)
qed

lemma adv_chars_text_nodes: "adv_chars_text u [] chars = Inr ns \<Longrightarrow> list_all is_text_node ns"
proof -
  assume a: "adv_chars_text u [] chars = Inr ns"
  then obtain st where st: "adv_lines u ([], []) (adv_sorted_lines chars) = Inr st"
    by (auto simp: adv_chars_text_def split: sum.splits)
  from adv_lines_nodes [OF st] have n: "list_all is_text_node (fst st)" .
  show ?thesis
  proof (cases "snd st \<noteq> []")
    case True
    with a st have "add_formatted_paragraph u (fst st) (py_join [32] (snd st)) = Inr ns"
      by (simp add: adv_chars_text_def)
    then obtain n2 where n2: "add_formatted_paragraph u [] (py_join [32] (snd st)) = Inr n2"
      and ns: "ns = fst st @ n2"
      by (subst (asm) add_formatted_paragraph_prefix) (auto split: sum.splits)
    from add_formatted_paragraph_nodes [OF n2] n ns show ?thesis by simp
  next
    case False
    with a st n show ?thesis by (simp add: adv_chars_text_def)
  qed
qed

lemma adv_page_text_prefix:
  "adv_page_text u doc p =
     (case adv_page_text u [] p of Inl e \<Rightarrow> Inl e | Inr ns \<Rightarrow> Inr (doc @ ns))"
  using run_loop_prefix [of "adv_fallback_line u" doc, OF adv_fallback_line_prefix]
        adv_chars_text_prefix [of u doc]
  by (simp add: adv_page_text_def split: sum.splits option.splits)

lemma adv_page_text_nodes: "adv_page_text u [] p = Inr ns \<Longrightarrow> list_all is_text_node ns"
  using run_loop_text_nodes [of "adv_fallback_line u",
          OF adv_fallback_line_prefix adv_fallback_line_nodes]
        adv_chars_text_nodes [of u]
  by (auto simp: adv_page_text_def split: sum.splits option.splits if_splits)

lemma adv_pages_layout:
  "adv_pages u n doc pages = Inr out \<Longrightarrow>
   \<exists>segs. list_all2 (adv_segment u) pages segs \<and> out = doc @ layout n segs"
proof (induction pages arbitrary: n doc out)
  case Nil
  then show ?case by simp
next
  case (Cons p ps)
  let ?brk = "if n > 1 then [Page_break] else []"
  from Cons.prems obtain doc2 doc3 where
    d2: "adv_tables u (doc @ ?brk) (pg_tables p) = Inr doc2"
    and d3: "adv_page_text u doc2 p = Inr doc3"
    and rest: "adv_pages u (n + 1) doc3 ps = Inr out"
    by (auto simp: Let_def split: sum.splits if_splits)
  from d2 have "add_tables u ''Table Grid'' None (doc @ ?brk) (pg_tables p) = Inr doc2"
    by (simp add: adv_tables_def)
  then obtain tabs where tabs: "adv_tables u [] (pg_tables p) = Inr tabs"
    and doc2: "doc2 = doc @ ?brk @ tabs"
    by (subst (asm) add_tables_prefix) (auto simp: adv_tables_def split: sum.splits)
  from d3 obtain tx where tx: "adv_page_text u [] p = Inr tx" and doc3: "doc3 = doc2 @ tx"
    by (subst (asm) adv_page_text_prefix) (auto split: sum.splits)
  from Cons.IH [OF rest] obtain segs where
    segs: "list_all2 (adv_segment u) ps segs" "out = doc3 @ layout (n + 1) segs" by blast
  have "adv_segment u p (tabs, tx)"
    using tabs tx add_tables_part [of u _ _ "pg_tables p" tabs] adv_page_text_nodes [OF tx]
    by (simp add: adv_segment_def adv_tables_def)
  with segs doc2 doc3
  have "list_all2 (adv_segment u) (p # ps) ((tabs, tx) # segs)
        \<and> out = doc @ layout n ((tabs, tx) # segs)" by simp
  then show ?case by blast
qed

section \<open>The claims\<close>

subsection \<open>C1: all-uppercase section titles\<close>

lemma summary_isupper: "py_isupper ascii (ustr ''PROFESSIONAL SUMMARY'')"
  by code_simp

lemma summary_short: "length (ustr ''PROFESSIONAL SUMMARY'') < 30"
  by code_simp

lemma summary_keyword:
  "list_ex (\<lambda>keyword. py_contains keyword (uc_lower ascii (ustr ''PROFESSIONAL SUMMARY'')))
     section_keywords"
  by code_simp

text \<open>
  C1, as the code has it. The rule for all-uppercase text shorter than 50 characters
  comes before the keyword rule and returns, so a line that is all uppercase, shorter
  than 30 characters and contains a section keyword is \<open>heading1\<close> when its font size
  exceeds 16 and \<open>heading2\<close> otherwise; it is never \<open>section_header\<close>.
\<close>

theorem C1_allcaps_keyword_line_is_heading:
  assumes "py_isupper u text" and "length text < 30"
    and "list_ex (\<lambda>keyword. py_contains keyword (uc_lower u text)) section_keywords"
  shows "classify_text_type u text font_size indent_level
           = (if font_size > 16 then Heading1 else Heading2)"
  using assms by (simp add: classify_text_type_def)

theorem C1_witness:
  "py_isupper ascii (ustr ''PROFESSIONAL SUMMARY'')
   \<and> length (ustr ''PROFESSIONAL SUMMARY'') < 30
   \<and> list_ex (\<lambda>keyword. py_contains keyword (uc_lower ascii (ustr ''PROFESSIONAL SUMMARY'')))
        section_keywords
   \<and> classify_text_type ascii (ustr ''PROFESSIONAL SUMMARY'') 12 0 = Heading2"
  using C1_allcaps_keyword_line_is_heading
          [OF summary_isupper summary_short summary_keyword, of 12 0]
        summary_isupper summary_short summary_keyword
  by simp

text \<open>
  The claim as the specification words it fails on its own first scenario: the line
  \<open>PROFESSIONAL SUMMARY\<close> at font size 12 meets every condition and is not a section
  header.
\<close>

theorem C1_counterexample:
  "py_isupper ascii (ustr ''PROFESSIONAL SUMMARY'')
   \<and> length (ustr ''PROFESSIONAL SUMMARY'') < 30
   \<and> list_ex (\<lambda>keyword. py_contains keyword (uc_lower ascii (ustr ''PROFESSIONAL SUMMARY'')))
        section_keywords
   \<and> classify_text_type ascii (ustr ''PROFESSIONAL SUMMARY'') 12 0 \<noteq> Section_header"
  by code_simp

subsection \<open>C2: reading order\<close>

lemma add_formatted_paragraph_error:
  "add_formatted_paragraph u doc t = Inl e \<Longrightarrow> e = ValueError"
  by (auto simp: add_formatted_paragraph_def add_bullet_point_def add_paragraph_def
                 add_heading_def Let_def split: if_splits)

lemma adv_line_step_reads:
  fixes u :: unicode and e :: "real \<times> pdf_char list"
  assumes "snd e \<noteq> []"
  defines "t \<equiv> py_strip u (concat (map c_text (sort_key c_x0 (snd e))))"
  shows "(t = [] \<longrightarrow> adv_line_step u (doc, []) e = Inr (doc, []))
       \<and> (t \<noteq> [] \<longrightarrow>
            (case adv_line_step u (doc, cur) e of
               Inl err \<Rightarrow> err = ValueError
             | Inr st \<Rightarrow> st = (doc, cur @ [t])
                         \<or> (snd st = [] \<and> fst st \<noteq> [] \<and> node_text (last (fst st)) = t)))"
proof -
  from assms(1) have avg: "\<And>f. py_avg (map f (sort_key c_x0 (snd e)))
      = Inr (sum_list (map f (sort_key c_x0 (snd e))) / real (length (snd e)))"
    by (simp add: py_avg_def)
  show ?thesis
    unfolding t_def
    by (auto simp: adv_line_step_def Let_def avg add_heading_def add_paragraph_def
                   plain_para_def
             split: sum.splits dest: add_formatted_paragraph_error)
qed

text \<open>
  C2. For the characters of a page, in any order: the keys of the sorted lines are the
  quantized vertical positions of the characters (a whole number of hundredths, within
  half a hundredth of every character of the line), strictly descending; every line
  holds exactly the characters of its key; the blocks come in the order of the lines,
  and the text of each is the stripped concatenation of the line's characters sorted by
  ascending horizontal position (a stable sort, so a permutation of the line). The
  advanced converter groups and orders its lines the same way, at one decimal place;
  its loop sorts the characters of a line by horizontal position too, and the text it
  takes from a line with text is that stripped concatenation: the step either adds it
  to the paragraph being collected or appends it as the last node of the document
  (or the document library rejects a text).
\<close>

theorem C2_lines_in_reading_order:
  assumes "chars \<noteq> []"
  shows "sorted_wrt (\<lambda>a b. a > b) (map fst (sorted_lines chars))
       \<and> set (map fst (sorted_lines chars)) = (\<lambda>c. py_round 2 (c_y0 c)) ` set chars
       \<and> (\<forall>e \<in> set (sorted_lines chars).
             ld_chars (snd e) = filter (\<lambda>c. py_round 2 (c_y0 c) = fst e) chars
           \<and> ld_chars (snd e) \<noteq> []
           \<and> (\<exists>k::int. fst e = of_int k / 100)
           \<and> (\<forall>c \<in> set (ld_chars (snd e)). \<bar>c_y0 c - fst e\<bar> \<le> 1 / 200)
           \<and> sorted (map c_x0 (sort_key c_x0 (ld_chars (snd e))))
           \<and> mset (sort_key c_x0 (ld_chars (snd e))) = mset (ld_chars (snd e))
           \<and> tb_text (block_of u (ld_chars (snd e)))
               = py_strip u (concat (map c_text (sort_key c_x0 (ld_chars (snd e))))))
       \<and> analyze_text_blocks u chars
           = Inr (map (\<lambda>e. block_of u (ld_chars (snd e))) (sorted_lines chars))
       \<and> sorted_wrt (\<lambda>a b. a > b) (map fst (adv_sorted_lines chars))
       \<and> set (map fst (adv_sorted_lines chars)) = (\<lambda>c. py_round 1 (c_y0 c)) ` set chars
       \<and> (\<forall>e \<in> set (adv_sorted_lines chars).
             snd e = filter (\<lambda>c. py_round 1 (c_y0 c) = fst e) chars
           \<and> snd e \<noteq> []
           \<and> (\<exists>k::int. fst e = of_int k / 10)
           \<and> (\<forall>c \<in> set (snd e). \<bar>c_y0 c - fst e\<bar> \<le> 1 / 20)
           \<and> sorted (map c_x0 (sort_key c_x0 (snd e)))
           \<and> mset (sort_key c_x0 (snd e)) = mset (snd e)
           \<and> (py_strip u (concat (map c_text (sort_key c_x0 (snd e)))) = []
                \<longrightarrow> (\<forall>doc. adv_line_step u (doc, []) e = Inr (doc, [])))
           \<and> (py_strip u (concat (map c_text (sort_key c_x0 (snd e)))) \<noteq> []
                \<longrightarrow> (\<forall>doc cur.
                      case adv_line_step u (doc, cur) e of
                        Inl err \<Rightarrow> err = ValueError
                      | Inr st \<Rightarrow>
                          st = (doc, cur @ [py_strip u (concat (map c_text (sort_key c_x0 (snd e))))])
                          \<or> (snd st = [] \<and> fst st \<noteq> []
                              \<and> node_text (last (fst st))
                                  = py_strip u (concat (map c_text (sort_key c_x0 (snd e))))))))"
proof -
  have lines: "\<forall>e \<in> set (sorted_lines chars).
             ld_chars (snd e) = filter (\<lambda>c. py_round 2 (c_y0 c) = fst e) chars
           \<and> ld_chars (snd e) \<noteq> []
           \<and> (\<exists>k::int. fst e = of_int k / 100)
           \<and> (\<forall>c \<in> set (ld_chars (snd e)). \<bar>c_y0 c - fst e\<bar> \<le> 1 / 200)
           \<and> sorted (map c_x0 (sort_key c_x0 (ld_chars (snd e))))
           \<and> mset (sort_key c_x0 (ld_chars (snd e))) = mset (ld_chars (snd e))
           \<and> tb_text (block_of u (ld_chars (snd e)))
               = py_strip u (concat (map c_text (sort_key c_x0 (ld_chars (snd e)))))"
  proof
    fix e assume e: "e \<in> set (sorted_lines chars)"
    from sorted_lines_entry [OF e]
    have a: "ld_chars (snd e) = filter (\<lambda>c. py_round 2 (c_y0 c) = fst e) chars"
      and b: "ld_chars (snd e) \<noteq> []"
      by (simp_all add: line_of_def)
    from b obtain c0 where "c0 \<in> set (ld_chars (snd e))" by (cases "ld_chars (snd e)") auto
    with a have key: "fst e = py_round 2 (c_y0 c0)" by auto
    from py_round_quantized [of 2 "c_y0 c0"] key
    have q: "\<exists>k::int. fst e = of_int k / 100" by auto
    have near: "\<forall>c \<in> set (ld_chars (snd e)). \<bar>c_y0 c - fst e\<bar> \<le> 1 / 200"
    proof
      fix c assume "c \<in> set (ld_chars (snd e))"
      with a have "fst e = py_round 2 (c_y0 c)" by auto
      with py_round_quantized [of 2 "c_y0 c"] show "\<bar>c_y0 c - fst e\<bar> \<le> 1 / 200" by auto
    qed
    from a b q near
    show "ld_chars (snd e) = filter (\<lambda>c. py_round 2 (c_y0 c) = fst e) chars
           \<and> ld_chars (snd e) \<noteq> []
           \<and> (\<exists>k::int. fst e = of_int k / 100)
           \<and> (\<forall>c \<in> set (ld_chars (snd e)). \<bar>c_y0 c - fst e\<bar> \<le> 1 / 200)
           \<and> sorted (map c_x0 (sort_key c_x0 (ld_chars (snd e))))
           \<and> mset (sort_key c_x0 (ld_chars (snd e))) = mset (ld_chars (snd e))
           \<and> tb_text (block_of u (ld_chars (snd e)))
               = py_strip u (concat (map c_text (sort_key c_x0 (ld_chars (snd e)))))"
      by (simp add: block_of_text line_text_def)
  qed
  have adv: "\<forall>e \<in> set (adv_sorted_lines chars).
             snd e = filter (\<lambda>c. py_round 1 (c_y0 c) = fst e) chars
           \<and> snd e \<noteq> []
           \<and> (\<exists>k::int. fst e = of_int k / 10)
           \<and> (\<forall>c \<in> set (snd e). \<bar>c_y0 c - fst e\<bar> \<le> 1 / 20)
           \<and> sorted (map c_x0 (sort_key c_x0 (snd e)))
           \<and> mset (sort_key c_x0 (snd e)) = mset (snd e)
           \<and> (py_strip u (concat (map c_text (sort_key c_x0 (snd e)))) = []
                \<longrightarrow> (\<forall>doc. adv_line_step u (doc, []) e = Inr (doc, [])))
           \<and> (py_strip u (concat (map c_text (sort_key c_x0 (snd e)))) \<noteq> []
                \<longrightarrow> (\<forall>doc cur.
                      case adv_line_step u (doc, cur) e of
                        Inl err \<Rightarrow> err = ValueError
                      | Inr st \<Rightarrow>
                          st = (doc, cur @ [py_strip u (concat (map c_text (sort_key c_x0 (snd e))))])
                          \<or> (snd st = [] \<and> fst st \<noteq> []
                              \<and> node_text (last (fst st))
                                  = py_strip u (concat (map c_text (sort_key c_x0 (snd e)))))))"
  proof
    fix e assume e: "e \<in> set (adv_sorted_lines chars)"
    from adv_sorted_lines_entry [OF e]
    have a: "snd e = filter (\<lambda>c. py_round 1 (c_y0 c) = fst e) chars" and b: "snd e \<noteq> []"
      by blast+
    from b obtain c0 where "c0 \<in> set (snd e)" by (cases "snd e") auto
    with a have key: "fst e = py_round 1 (c_y0 c0)" by (metis (mono_tags, lifting) mem_Collect_eq set_filter)
    from py_round_quantized [of 1 "c_y0 c0"] key
    have q: "\<exists>k::int. fst e = of_int k / 10" by auto
    have near: "\<forall>c \<in> set (snd e). \<bar>c_y0 c - fst e\<bar> \<le> 1 / 20"
    proof
      fix c assume "c \<in> set (snd e)"
      with a have "fst e = py_round 1 (c_y0 c)" by (metis (mono_tags, lifting) mem_Collect_eq set_filter)
      with py_round_quantized [of 1 "c_y0 c"] show "\<bar>c_y0 c - fst e\<bar> \<le> 1 / 20" by auto
    qed
    from adv_line_step_reads [OF b, of u] a b q near
    show "snd e = filter (\<lambda>c. py_round 1 (c_y0 c) = fst e) chars
           \<and> snd e \<noteq> []
           \<and> (\<exists>k::int. fst e = of_int k / 10)
           \<and> (\<forall>c \<in> set (snd e). \<bar>c_y0 c - fst e\<bar> \<le> 1 / 20)
           \<and> sorted (map c_x0 (sort_key c_x0 (snd e)))
           \<and> mset (sort_key c_x0 (snd e)) = mset (snd e)
           \<and> (py_strip u (concat (map c_text (sort_key c_x0 (snd e)))) = []
                \<longrightarrow> (\<forall>doc. adv_line_step u (doc, []) e = Inr (doc, [])))
           \<and> (py_strip u (concat (map c_text (sort_key c_x0 (snd e)))) \<noteq> []
                \<longrightarrow> (\<forall>doc cur.
                      case adv_line_step u (doc, cur) e of
                        Inl err \<Rightarrow> err = ValueError
                      | Inr st \<Rightarrow>
                          st = (doc, cur @ [py_strip u (concat (map c_text (sort_key c_x0 (snd e))))])
                          \<or> (snd st = [] \<and> fst st \<noteq> []
                              \<and> node_text (last (fst st))
                                  = py_strip u (concat (map c_text (sort_key c_x0 (snd e)))))))"
      by simp
  qed
  show ?thesis
    using sorted_lines_desc [of chars] sorted_lines_keys [of chars] lines
          analyze_text_blocks_eq [of u chars] adv_sorted_lines_desc [of chars]
          adv_sorted_lines_keys [of chars] adv
    by blast
qed

lemma near_chars_nonempty: "near_chars \<noteq> []"
  by (simp add: near_chars_def)

lemma near_chars_lines:
  "map (\<lambda>e. (fst e, map c_text (ld_chars (snd e)))) (sorted_lines near_chars)
     = [(70001 / 100, [ustr ''z'']), (700, [ustr ''c'', ustr ''a'', ustr ''b''])]
   \<and> map (\<lambda>e. tb_text (block_of ascii (ld_chars (snd e)))) (sorted_lines near_chars)
     = [ustr ''z'', ustr ''abc'']"
  by code_simp

lemma near_chars_adv:
  "map (\<lambda>e. (fst e, map c_text (snd e))) (adv_sorted_lines near_chars)
     = [(700, [ustr ''c'', ustr ''a'', ustr ''z'', ustr ''b''])]
   \<and> adv_line_step ascii ([], []) (hd (adv_sorted_lines near_chars)) = Inr ([], [ustr ''azbc''])
   \<and> adv_chars_text ascii [] near_chars = Inr [Para_node (plain_para (ustr ''azbc''))]"
  by code_simp

theorem C2_witness:
  "near_chars \<noteq> []
   \<and> map (\<lambda>e. (fst e, map c_text (ld_chars (snd e)))) (sorted_lines near_chars)
       = [(70001 / 100, [ustr ''z'']), (700, [ustr ''c'', ustr ''a'', ustr ''b''])]
   \<and> map (\<lambda>e. tb_text (block_of ascii (ld_chars (snd e)))) (sorted_lines near_chars)
       = [ustr ''z'', ustr ''abc'']
   \<and> analyze_text_blocks ascii near_chars
       = Inr (map (\<lambda>e. block_of ascii (ld_chars (snd e))) (sorted_lines near_chars))
   \<and> sorted_wrt (\<lambda>a b. a > b) (map fst (sorted_lines near_chars))
   \<and> map (\<lambda>e. (fst e, map c_text (snd e))) (adv_sorted_lines near_chars)
       = [(700, [ustr ''c'', ustr ''a'', ustr ''z'', ustr ''b''])]
   \<and> adv_line_step ascii ([], []) (hd (adv_sorted_lines near_chars)) = Inr ([], [ustr ''azbc''])
   \<and> adv_chars_text ascii [] near_chars = Inr [Para_node (plain_para (ustr ''azbc''))]"
  using C2_lines_in_reading_order [OF near_chars_nonempty, of ascii]
        near_chars_nonempty near_chars_lines near_chars_adv
  by blast

subsection \<open>C3: the classifier and the font sizes never fail\<close>

lemma classify_text_type_range:
  "classify_text_type u text font_size indent_level
     \<in> {Heading1, Heading2, Section_header, Bullet, Contact, Indented, Paragraph}"
  by (simp add: classify_text_type_def)

text \<open>
  C3. The classifier returns one of the seven kinds it names (the eighth, \<open>empty\<close>, is
  given to lines without text before the classifier is called). Building the blocks of
  a page never raises: every line has at least one character, so the average divides
  by a positive count, and the font sizes averaged are those of the line's characters
  with 12 in the place of a missing size. A block that is not empty carries that
  average, and its kind is the classifier's answer for its text, average and indent.
\<close>

theorem C3_classifier_total:
  "classify_text_type u text font_size indent_level
     \<in> {Heading1, Heading2, Section_header, Bullet, Contact, Indented, Paragraph}
   \<and> (\<exists>blocks. analyze_text_blocks u chars = Inr blocks
        \<and> length blocks = length (sorted_lines chars)
        \<and> (\<forall>i < length blocks.
              (let entry = snd (sorted_lines chars ! i); b = blocks ! i in
               ld_chars entry \<noteq> []
               \<and> ld_font_sizes entry = map size_or_12 (ld_chars entry)
               \<and> (if line_text u (ld_chars entry) = [] then b = empty_block
                   else tb_font_size b
                          = sum_list (map size_or_12 (ld_chars entry))
                              / real (length (ld_chars entry))
                        \<and> tb_text b = line_text u (ld_chars entry)
                        \<and> tb_kind b = classify_text_type u (tb_text b) (tb_font_size b)
                                        (tb_indent b)))))"
proof -
  let ?blocks = "map (\<lambda>e. block_of u (ld_chars (snd e))) (sorted_lines chars)"
  have "\<forall>i < length ?blocks.
          (let entry = snd (sorted_lines chars ! i); b = ?blocks ! i in
               ld_chars entry \<noteq> []
               \<and> ld_font_sizes entry = map size_or_12 (ld_chars entry)
               \<and> (if line_text u (ld_chars entry) = [] then b = empty_block
                   else tb_font_size b
                          = sum_list (map size_or_12 (ld_chars entry))
                              / real (length (ld_chars entry))
                        \<and> tb_text b = line_text u (ld_chars entry)
                        \<and> tb_kind b = classify_text_type u (tb_text b) (tb_font_size b)
                                        (tb_indent b)))"
  proof (intro allI impI)
    fix i assume "i < length ?blocks"
    then have "sorted_lines chars ! i \<in> set (sorted_lines chars)" by simp
    from sorted_lines_entry [OF this]
    show "let entry = snd (sorted_lines chars ! i); b = ?blocks ! i in
               ld_chars entry \<noteq> []
               \<and> ld_font_sizes entry = map size_or_12 (ld_chars entry)
               \<and> (if line_text u (ld_chars entry) = [] then b = empty_block
                   else tb_font_size b
                          = sum_list (map size_or_12 (ld_chars entry))
                              / real (length (ld_chars entry))
                        \<and> tb_text b = line_text u (ld_chars entry)
                        \<and> tb_kind b = classify_text_type u (tb_text b) (tb_font_size b)
                                        (tb_indent b))"
      using \<open>i < length ?blocks\<close>
      by (simp add: Let_def line_of_def block_of_def)
  qed
  then show ?thesis
    using classify_text_type_range analyze_text_blocks_eq [of u chars] by simp
qed

lemma ex_chars_blocks:
  "analyze_text_blocks ascii ex_chars
     = Inr [\<lparr> tb_kind = Heading1, tb_text = ustr ''T'', tb_font_size = 18,
              tb_font = ustr ''default'', tb_indent = 10 \<rparr>,
            \<lparr> tb_kind = Paragraph, tb_text = ustr ''ab'', tb_font_size = 11,
              tb_font = ustr ''default'', tb_indent = 10 \<rparr>]"
  by code_simp

theorem C3_witness:
  "classify_text_type ascii (ustr ''ab'') 11 10 = Paragraph
   \<and> analyze_text_blocks ascii ex_chars
     = Inr [\<lparr> tb_kind = Heading1, tb_text = ustr ''T'', tb_font_size = 18,
              tb_font = ustr ''default'', tb_indent = 10 \<rparr>,
            \<lparr> tb_kind = Paragraph, tb_text = ustr ''ab'', tb_font_size = 11,
              tb_font = ustr ''default'', tb_indent = 10 \<rparr>]
   \<and> (\<exists>blocks. analyze_text_blocks ascii ex_chars = Inr blocks
        \<and> length blocks = length (sorted_lines ex_chars))"
proof -
  have k: "classify_text_type ascii (ustr ''ab'') 11 10 = Paragraph" by code_simp
  from C3_classifier_total [of ascii "ustr ''ab''" 11 10 ex_chars]
  have "\<exists>blocks. analyze_text_blocks ascii ex_chars = Inr blocks
        \<and> length blocks = length (sorted_lines ex_chars)" by blast
  with k ex_chars_blocks show ?thesis by blast
qed

subsection \<open>C4: the emitted table\<close>

lemma expected_table_shape:
  "length (expected_table u sz table_data) = length table_data
   \<and> (\<forall>row \<in> set (expected_table u sz table_data). length row = length (hd table_data))"
  by (auto simp: expected_table_def)

lemma expected_table_cell:
  "i < length table_data \<Longrightarrow> j < length (hd table_data) \<Longrightarrow>
   ce_text (expected_table u sz table_data ! i ! j) =
     (if j < length (table_data ! i) \<and> truthy (table_data ! i ! j)
      then py_strip u (the (table_data ! i ! j)) else [])"
  by (auto simp: expected_table_def written_cell_def blank_cell_def truthy_def
           split: option.splits)

text \<open>
  C4, as the code has it. Take a grid with at least one row in which no row is longer
  than the first. If the document library accepts every stripped cell value, either
  converter appends one table and its spacer paragraph; the table has one row per row
  of the grid and as many columns as the first row has cells; a cell holds the stripped
  value of the grid where that value is present and not empty, and is blank elsewhere,
  in particular beyond the end of a shorter row. If some stripped value holds a
  character the library rejects, the cell write raises \<open>ValueError\<close> and the emitter
  with it: no table is returned.
\<close>

theorem C4_table_round_trip:
  assumes "fits table_data"
  shows "(grid_clean u table_data \<longrightarrow>
            add_table u style sz doc table_data
              = Inr (doc @ [Table_node style (expected_table u sz table_data),
                            Para_node (plain_para [])])
          \<and> ultra_tables u doc [table_data]
              = Inr (doc @ [Table_node ''Light Grid Accent 1''
                              (expected_table u (Some 11) table_data),
                            Para_node (plain_para [])])
          \<and> adv_tables u doc [table_data]
              = Inr (doc @ [Table_node ''Table Grid'' (expected_table u None table_data),
                            Para_node (plain_para [])])
          \<and> length (expected_table u sz table_data) = length table_data
          \<and> (\<forall>row \<in> set (expected_table u sz table_data).
                length row = length (hd table_data))
          \<and> (\<forall>i < length table_data. \<forall>j < length (hd table_data).
                ce_text (expected_table u sz table_data ! i ! j) =
                  (if j < length (table_data ! i) \<and> truthy (table_data ! i ! j)
                   then py_strip u (the (table_data ! i ! j)) else [])))
       \<and> (\<not> grid_clean u table_data \<longrightarrow>
            add_table u style sz doc table_data = Inl ValueError
          \<and> ultra_tables u doc [table_data] = Inl ValueError
          \<and> adv_tables u doc [table_data] = Inl ValueError)"
proof -
  from assms have ne: "table_data \<noteq> []" by (simp add: fits_def)
  have one: "add_table u style sz doc table_data
           = Inr (doc @ [Table_node style (expected_table u sz table_data),
                         Para_node (plain_para [])])"
    if "grid_clean u table_data" for style sz
    using ne by (simp add: add_table_def fill_table_ok [OF assms that])
  have bad: "add_table u style sz doc table_data = Inl ValueError"
    if "\<not> grid_clean u table_data" for style sz
    using ne by (simp add: add_table_def fill_table_unclean [OF assms that])
  show ?thesis
    using one bad expected_table_shape [of u sz table_data]
          expected_table_cell [of _ table_data]
    by (simp add: ultra_tables_def adv_tables_def)
qed

lemma padded_grid_facts: "fits padded_grid \<and> grid_clean ascii padded_grid"
  by code_simp

lemma padded_grid_table:
  "expected_table ascii None padded_grid
     = [[\<lparr>ce_text = ustr ''Item'', ce_size = None\<rparr>, \<lparr>ce_text = ustr ''Qty'', ce_size = None\<rparr>,
         \<lparr>ce_text = ustr ''Note'', ce_size = None\<rparr>],
        [\<lparr>ce_text = ustr ''Pen'', ce_size = None\<rparr>, \<lparr>ce_text = [], ce_size = None\<rparr>,
         \<lparr>ce_text = [], ce_size = None\<rparr>],
        [\<lparr>ce_text = [], ce_size = None\<rparr>, \<lparr>ce_text = ustr ''2'', ce_size = None\<rparr>,
         \<lparr>ce_text = [], ce_size = None\<rparr>]]"
  by code_simp

lemma ctl_grid_facts: "fits ctl_grid \<and> \<not> grid_clean ascii ctl_grid"
  by code_simp

theorem C4_witness:
  "fits padded_grid \<and> grid_clean ascii padded_grid
   \<and> adv_tables ascii [] [padded_grid]
       = Inr [Table_node ''Table Grid''
               [[\<lparr>ce_text = ustr ''Item'', ce_size = None\<rparr>, \<lparr>ce_text = ustr ''Qty'', ce_size = None\<rparr>,
                 \<lparr>ce_text = ustr ''Note'', ce_size = None\<rparr>],
                [\<lparr>ce_text = ustr ''Pen'', ce_size = None\<rparr>, \<lparr>ce_text = [], ce_size = None\<rparr>,
                 \<lparr>ce_text = [], ce_size = None\<rparr>],
                [\<lparr>ce_text = [], ce_size = None\<rparr>, \<lparr>ce_text = ustr ''2'', ce_size = None\<rparr>,
                 \<lparr>ce_text = [], ce_size = None\<rparr>]],
              Para_node (plain_para [])]
   \<and> length (expected_table ascii None padded_grid) = 3
   \<and> fits ctl_grid \<and> \<not> grid_clean ascii ctl_grid
   \<and> adv_tables ascii [] [ctl_grid] = Inl ValueError"
  using C4_table_round_trip [of padded_grid ascii "''Table Grid''" None "[]"]
        C4_table_round_trip [of ctl_grid ascii "''Table Grid''" None "[]"]
        padded_grid_facts padded_grid_table ctl_grid_facts
  by (simp add: padded_grid_def)

text \<open>
  The claim as the specification words it fails on a grid that meets its precondition:
  one row with one cell whose text is \<open>a\<close> followed by the control character U+0001.
  Neither converter appends a table for it; the cell write raises.
\<close>

theorem C4_counterexample:
  "fits ctl_grid
   \<and> ultra_tables ascii [] [ctl_grid] = Inl ValueError
   \<and> adv_tables ascii [] [ctl_grid] = Inl ValueError"
  by code_simp

subsection \<open>C10: cell writes and the width of the first row\<close>

text \<open>
  C10. The emitter allocates as many columns as the first row has cells and writes
  cell \<open>j\<close> of every row without a check. When no row is longer than the first, no
  write leaves the table: filling it never raises \<open>IndexError\<close> (and returns the
  expected table when the library accepts every text). Without that precondition the
  guarantee is lost: a non-empty value at a column at or beyond the width of the first
  row makes the run fail, and the failure is the \<open>IndexError\<close> of that write unless
  the library has rejected a text before.
\<close>

theorem C10_cell_writes_in_bounds:
  "(fits table_data \<longrightarrow>
      fill_table u sz table_data \<noteq> Inl IndexError
      \<and> (grid_clean u table_data
           \<longrightarrow> fill_table u sz table_data = Inr (expected_table u sz table_data)))
   \<and> (i < length table_data \<and> j < length (table_data ! i) \<and> truthy (table_data ! i ! j)
        \<and> length (hd table_data) \<le> j
      \<longrightarrow> (\<exists>e. fill_table u sz table_data = Inl e)
          \<and> (\<exists>e. add_table u style sz doc table_data = Inl e)
          \<and> (grid_clean u table_data
               \<longrightarrow> fill_table u sz table_data = Inl IndexError
                   \<and> add_table u style sz doc table_data = Inl IndexError))"
proof -
  have "add_table u style sz doc table_data = Inl e"
    if "i < length table_data" "fill_table u sz table_data = Inl e" for e
    using that by (auto simp: add_table_def)
  then show ?thesis
    using fill_table_ok [of table_data u sz] fill_table_no_index_error [of table_data u sz]
          fill_table_out_of_range [of i table_data j u sz]
    by blast
qed

lemma short_grid_fits: "fits short_grid \<and> grid_clean ascii short_grid"
  by code_simp

lemma short_grid_table:
  "expected_table ascii None short_grid
     = [[\<lparr>ce_text = ustr ''Name'', ce_size = None\<rparr>, \<lparr>ce_text = [], ce_size = None\<rparr>],
        [\<lparr>ce_text = ustr ''Bob'', ce_size = None\<rparr>, \<lparr>ce_text = [], ce_size = None\<rparr>]]"
  by code_simp

lemma wide_grid_cell:
  "(1::nat) < length wide_grid \<and> (1::nat) < length (wide_grid ! 1)
   \<and> truthy (wide_grid ! 1 ! 1) \<and> length (hd wide_grid) \<le> (1::nat)
   \<and> grid_clean ascii wide_grid"
  by code_simp

theorem C10_witness:
  "fits short_grid
   \<and> fill_table ascii None short_grid
       = Inr [[\<lparr>ce_text = ustr ''Name'', ce_size = None\<rparr>, \<lparr>ce_text = [], ce_size = None\<rparr>],
              [\<lparr>ce_text = ustr ''Bob'', ce_size = None\<rparr>, \<lparr>ce_text = [], ce_size = None\<rparr>]]
   \<and> (1::nat) < length wide_grid \<and> (1::nat) < length (wide_grid ! 1)
   \<and> truthy (wide_grid ! 1 ! 1) \<and> length (hd wide_grid) \<le> (1::nat)
   \<and> fill_table ascii None wide_grid = Inl IndexError
   \<and> add_table ascii ''Table Grid'' None [] wide_grid = Inl IndexError"
  using C10_cell_writes_in_bounds [of short_grid ascii None 0 0 "''Table Grid''" "[]"]
        C10_cell_writes_in_bounds [of wide_grid ascii None 1 1 "''Table Grid''" "[]"]
        short_grid_fits short_grid_table wide_grid_cell
  by simp

subsection \<open>C5: one append for each block\<close>

text \<open>
  C5, as the code has it. Call the emitted text of a block what the emitter hands to
  the document library: nothing for an empty block, the text without its markers for a
  bullet block, the text of the block otherwise. For a bullet block whose emitted text
  is empty the guard \<open>if clean_text\<close> skips the append and the document is left as it
  was. Otherwise, when the library accepts the emitted text, the emitter appends exactly
  one node that carries it: a heading of level 1 for \<open>heading1\<close>, of level 2 for
  \<open>heading2\<close> and \<open>section_header\<close>, and a paragraph for every other kind, with the
  bullet style for a bullet block and no other. When the library rejects the emitted
  text, the emitter raises \<open>ValueError\<close>.
\<close>

theorem C5_one_append_unless_bare_bullet:
  "(tb_kind block = Bullet \<and> emitted_text u block = []
      \<longrightarrow> add_formatted_text_block u doc block = Inr doc)
   \<and> (\<not> accepted (emitted_text u block)
      \<longrightarrow> add_formatted_text_block u doc block = Inl ValueError)
   \<and> (accepted (emitted_text u block)
        \<and> \<not> (tb_kind block = Bullet \<and> emitted_text u block = [])
      \<longrightarrow> (\<exists>n. add_formatted_text_block u doc block = Inr (doc @ [n])
             \<and> node_text n = emitted_text u block
             \<and> heading_level n = heading_kind (tb_kind block)
             \<and> is_paragraph n = (heading_kind (tb_kind block) = None)
             \<and> bulleted n = (tb_kind block = Bullet)))"
  by (cases "tb_kind block")
     (auto simp: add_formatted_text_block_def emitted_text_def heading_kind_def Let_def
                 add_paragraph_def add_heading_def plain_para_def accepted_def)

lemma block_examples:
  "tb_kind dash_block = Bullet \<and> emitted_text ascii dash_block = []
   \<and> \<not> accepted (emitted_text ascii ctl_block)
   \<and> accepted (emitted_text ascii mail_block) \<and> tb_kind mail_block = Contact
   \<and> emitted_text ascii mail_block = ustr ''a@b.io''
   \<and> accepted (emitted_text ascii title_block) \<and> tb_kind title_block = Heading1"
  by code_simp

theorem C5_witness:
  "add_formatted_text_block ascii [Page_break] dash_block = Inr [Page_break]
   \<and> add_formatted_text_block ascii [Page_break] ctl_block = Inl ValueError
   \<and> (\<exists>n. add_formatted_text_block ascii [Page_break] mail_block = Inr [Page_break, n]
          \<and> node_text n = ustr ''a@b.io'' \<and> heading_level n = None \<and> is_paragraph n)
   \<and> (\<exists>n. add_formatted_text_block ascii [Page_break] title_block = Inr [Page_break, n]
          \<and> heading_level n = Some 1)"
proof -
  from C5_one_append_unless_bare_bullet [of dash_block ascii "[Page_break]"] block_examples
  have a: "add_formatted_text_block ascii [Page_break] dash_block = Inr [Page_break]" by blast
  from C5_one_append_unless_bare_bullet [of ctl_block ascii "[Page_break]"] block_examples
  have b: "add_formatted_text_block ascii [Page_break] ctl_block = Inl ValueError" by blast
  from C5_one_append_unless_bare_bullet [of mail_block ascii "[Page_break]"] block_examples
  have c: "\<exists>n. add_formatted_text_block ascii [Page_break] mail_block = Inr [Page_break, n]
          \<and> node_text n = ustr ''a@b.io'' \<and> heading_level n = None \<and> is_paragraph n"
    by (auto simp: heading_kind_def)
  from C5_one_append_unless_bare_bullet [of title_block ascii "[Page_break]"] block_examples
  have d: "\<exists>n. add_formatted_text_block ascii [Page_break] title_block = Inr [Page_break, n]
          \<and> heading_level n = Some 1"
    by (auto simp: heading_kind_def)
  from a b c d show ?thesis by blast
qed

text \<open>
  The claim as the specification words it fails for a line that is a dash and nothing
  else: the grouper and the classifier make it a bullet block, and the emitter returns
  without an append. It fails too for a block whose text holds a control character:
  the emitter raises.
\<close>

theorem C5_counterexample:
  "analyze_text_blocks ascii dash_chars = Inr [dash_block]
   \<and> add_formatted_text_block ascii [] dash_block = Inr []
   \<and> add_formatted_text_block ascii [] ctl_block = Inl ValueError"
  by code_simp

subsection \<open>C6: stripping bullet markers twice\<close>

lemma consuming_patterns:
  "consuming (rx_markers u)" "consuming (rx_number_prefix u)" "consuming (rx_letter_prefix u)"
  by (simp_all add: rx_markers_def rx_number_prefix_def rx_letter_prefix_def rx_plus_def)

lemma strip_sub_le: "length (py_strip u (re_sub_start u r s)) \<le> length s"
  using py_strip_le [of u "re_sub_start u r s"] re_sub_start_le [of u r s] by simp

lemma strip_sub_lt:
  "consuming r \<Longrightarrow> re_match u r s \<Longrightarrow> length (py_strip u (re_sub_start u r s)) < length s"
  using py_strip_le [of u "re_sub_start u r s"] re_sub_start_lt [of r u s] by simp

lemma strip_sub_id:
  "py_strip u s = s \<Longrightarrow> \<not> re_match u r s \<Longrightarrow> py_strip u (re_sub_start u r s) = s"
  by (simp add: re_sub_start_id)

lemma clean_bullet_fixed:
  assumes "py_strip u r = r"
  shows "(clean_bullet u r = r) = (\<not> ultra_marked u r)"
proof
  assume fixed: "clean_bullet u r = r"
  show "\<not> ultra_marked u r"
  proof
    assume "ultra_marked u r"
    then consider "re_match u (rx_markers u) r"
      | "\<not> re_match u (rx_markers u) r" "re_match u (rx_number_prefix u) r"
      by (auto simp: ultra_marked_def)
    then have "length (clean_bullet u r) < length r"
    proof cases
      case 1
      let ?t1 = "py_strip u (re_sub_start u (rx_markers u) r)"
      from 1 have "length ?t1 < length r" by (intro strip_sub_lt consuming_patterns)
      moreover have "length (py_strip u (re_sub_start u (rx_number_prefix u) ?t1)) \<le> length ?t1"
        by (rule strip_sub_le)
      ultimately show ?thesis by (simp add: clean_bullet_def Let_def)
    next
      case 2
      from 2(1) assms have "py_strip u (re_sub_start u (rx_markers u) r) = r"
        by (simp add: strip_sub_id)
      moreover from 2(2) have "length (py_strip u (re_sub_start u (rx_number_prefix u) r)) < length r"
        by (intro strip_sub_lt consuming_patterns)
      ultimately show ?thesis by (simp add: clean_bullet_def Let_def)
    qed
    with fixed show False by simp
  qed
next
  assume "\<not> ultra_marked u r"
  with assms show "clean_bullet u r = r"
    by (simp add: ultra_marked_def clean_bullet_def Let_def strip_sub_id)
qed

lemma bullet_text_fixed:
  assumes "py_strip u r = r"
  shows "(bullet_text u r = r) = (\<not> adv_marked u r)"
proof
  assume fixed: "bullet_text u r = r"
  show "\<not> adv_marked u r"
  proof
    assume "adv_marked u r"
    then consider "re_match u (rx_markers u) r"
      | "\<not> re_match u (rx_markers u) r" "re_match u (rx_number_prefix u) r"
      | "\<not> re_match u (rx_markers u) r" "\<not> re_match u (rx_number_prefix u) r"
        "re_match u (rx_letter_prefix u) r"
      by (auto simp: adv_marked_def ultra_marked_def)
    then have "length (bullet_text u r) < length r"
    proof cases
      case 1
      let ?t1 = "py_strip u (re_sub_start u (rx_markers u) r)"
      let ?t2 = "py_strip u (re_sub_start u (rx_number_prefix u) ?t1)"
      from 1 have "length ?t1 < length r" by (intro strip_sub_lt consuming_patterns)
      moreover have "length ?t2 \<le> length ?t1" by (rule strip_sub_le)
      moreover have "length (py_strip u (re_sub_start u (rx_letter_prefix u) ?t2)) \<le> length ?t2"
        by (rule strip_sub_le)
      ultimately show ?thesis by (simp add: bullet_text_def Let_def)
    next
      case 2
      let ?t2 = "py_strip u (re_sub_start u (rx_number_prefix u) r)"
      from 2(1) assms have "py_strip u (re_sub_start u (rx_markers u) r) = r"
        by (simp add: strip_sub_id)
      moreover from 2(2) have "length ?t2 < length r"
        by (intro strip_sub_lt consuming_patterns)
      moreover have "length (py_strip u (re_sub_start u (rx_letter_prefix u) ?t2)) \<le> length ?t2"
        by (rule strip_sub_le)
      ultimately show ?thesis by (simp add: bullet_text_def Let_def)
    next
      case 3
      from 3(1) assms have "py_strip u (re_sub_start u (rx_markers u) r) = r"
        by (simp add: strip_sub_id)
      moreover from 3(2) assms have "py_strip u (re_sub_start u (rx_number_prefix u) r) = r"
        by (simp add: strip_sub_id)
      moreover from 3(3) have "length (py_strip u (re_sub_start u (rx_letter_prefix u) r)) < length r"
        by (intro strip_sub_lt consuming_patterns)
      ultimately show ?thesis by (simp add: bullet_text_def Let_def)
    qed
    with fixed show False by simp
  qed
next
  assume "\<not> adv_marked u r"
  with assms show "bullet_text u r = r"
    by (simp add: adv_marked_def ultra_marked_def bullet_text_def Let_def strip_sub_id)
qed

text \<open>
  C6, as the code has it. One application of the stripper removes one run of glyphs
  and white space, then one numeric marker, then (in the advanced converter) one
  alphabetic marker. Applying it to its own result changes nothing exactly when that
  result does not begin with a further marker; when it does, the second application
  removes that marker too.
\<close>

theorem C6_second_strip_fixed_iff_unmarked:
  "(bullet_text u (bullet_text u s) = bullet_text u s) = (\<not> adv_marked u (bullet_text u s))
   \<and> (clean_bullet u (clean_bullet u s) = clean_bullet u s)
       = (\<not> ultra_marked u (clean_bullet u s))"
proof -
  have "py_strip u (bullet_text u s) = bullet_text u s"
    by (simp add: bullet_text_def Let_def py_strip_idem)
  moreover have "py_strip u (clean_bullet u s) = clean_bullet u s"
    by (simp add: clean_bullet_def Let_def py_strip_idem)
  ultimately show ?thesis
    using bullet_text_fixed clean_bullet_fixed by blast
qed

lemma led_unmarked:
  "bullet_text ascii ([8226] @ ustr '' Led a team of 5 engineers'') = ustr ''Led a team of 5 engineers''
   \<and> \<not> adv_marked ascii (bullet_text ascii ([8226] @ ustr '' Led a team of 5 engineers''))"
  by code_simp

theorem C6_witness:
  "bullet_text ascii ([8226] @ ustr '' Led a team of 5 engineers'') = ustr ''Led a team of 5 engineers''
   \<and> bullet_text ascii (bullet_text ascii ([8226] @ ustr '' Led a team of 5 engineers''))
       = bullet_text ascii ([8226] @ ustr '' Led a team of 5 engineers'')"
  using C6_second_strip_fixed_iff_unmarked [of ascii "[8226] @ ustr '' Led a team of 5 engineers''"]
        led_unmarked
  by blast

text \<open>
  The claim as the specification words it fails on stacked markers: \<open>1. 2. foo\<close> is
  stripped to \<open>2. foo\<close>, and that to \<open>foo\<close>, in both converters.
\<close>

theorem C6_counterexample:
  "bullet_text ascii (ustr ''1. 2. foo'') = ustr ''2. foo''
   \<and> bullet_text ascii (bullet_text ascii (ustr ''1. 2. foo'')) = ustr ''foo''
   \<and> bullet_text ascii (bullet_text ascii (ustr ''1. 2. foo'')) \<noteq> bullet_text ascii (ustr ''1. 2. foo'')
   \<and> clean_bullet ascii (clean_bullet ascii (ustr ''1. 2. foo'')) \<noteq> clean_bullet ascii (ustr ''1. 2. foo'')"
  by code_simp

subsection \<open>C7: alphabetic list markers\<close>

lemma letter_not_glyph: "ascii_letter c \<Longrightarrow> \<not> bullet_glyph c"
  by (auto simp: ascii_letter_def ascii_lower_def ascii_upper_def bullet_glyph_def)

lemma letter_led_not_numbered:
  assumes "\<not> uc_isspace u c" and "\<not> uc_isdecimal u c"
  shows "\<not> re_match u (rx_numbered u) (c # rest)"
  using assms by (simp add: re_match_def rx_numbered_def rx_plus_def rx_run.simps)

text \<open>
  C7, as the code has it. In the advanced converter \<open>detect_bullet_point\<close> answers yes
  for every text with a leading alphabetic marker. The ultra classifier has no rule for
  alphabetic markers: among the lines that reach its bullet rule (font size at most 14,
  not all-uppercase-under-50) it assigns \<open>bullet\<close> exactly to those that start with
  white space or a bullet glyph or carry a leading numeric marker. So a line that
  starts with an ASCII letter and a full stop is not a bullet there (the letter being
  neither white space nor a decimal digit in the character database).
\<close>

theorem C7_alphabetic_marker_rules:
  "(re_match u (rx_lettered u) text \<longrightarrow> detect_bullet_point u text)
   \<and> (font_size \<le> 14 \<and> \<not> (py_isupper u text \<and> length text < 50)
        \<longrightarrow> (classify_text_type u text font_size indent_level = Bullet)
             = (re_match u (rx_marker u) text \<or> re_match u (rx_numbered u) text))
   \<and> (font_size \<le> 14 \<and> \<not> (py_isupper u text \<and> length text < 50)
        \<and> text = c # 46 # rest \<and> ascii_letter c
        \<and> \<not> uc_isspace u c \<and> \<not> uc_isdecimal u c
        \<longrightarrow> classify_text_type u text font_size indent_level \<noteq> Bullet)"
proof -
  have a: "re_match u (rx_lettered u) text \<longrightarrow> detect_bullet_point u text"
    by (simp add: detect_bullet_point_def)
  have b: "(classify_text_type u text font_size indent_level = Bullet)
             = (re_match u (rx_marker u) text \<or> re_match u (rx_numbered u) text)"
    if "font_size \<le> 14" "\<not> (py_isupper u text \<and> length text < 50)"
    using that by (auto simp: classify_text_type_def)
  have c: "classify_text_type u text font_size indent_level \<noteq> Bullet"
    if "font_size \<le> 14" "\<not> (py_isupper u text \<and> length text < 50)"
      "text = c # 46 # rest" "ascii_letter c" "\<not> uc_isspace u c" "\<not> uc_isdecimal u c"
  proof -
    from that(3,5) letter_not_glyph [OF that(4)]
    have "\<not> re_match u (rx_marker u) text"
      by (simp add: re_match_def rx_marker_def rx_run.simps)
    moreover from that(3,5,6) have "\<not> re_match u (rx_numbered u) text"
      by (simp add: letter_led_not_numbered)
    ultimately show ?thesis using b [OF that(1,2)] by simp
  qed
  from a b c show ?thesis by blast
qed

lemma item_facts:
  "re_match ascii (rx_lettered ascii) (ustr ''a. first item'')
   \<and> (12::real) \<le> 14
   \<and> \<not> (py_isupper ascii (ustr ''a. first item'') \<and> length (ustr ''a. first item'') < 50)
   \<and> ustr ''a. first item'' = 97 # 46 # ustr '' first item''
   \<and> ascii_letter 97 \<and> \<not> uc_isspace ascii 97 \<and> \<not> uc_isdecimal ascii 97"
  by code_simp

theorem C7_witness:
  "re_match ascii (rx_lettered ascii) (ustr ''a. first item'')
   \<and> detect_bullet_point ascii (ustr ''a. first item'')
   \<and> classify_text_type ascii (ustr ''a. first item'') 12 0 \<noteq> Bullet"
  using C7_alphabetic_marker_rules
          [of ascii "ustr ''a. first item''" 12 0 97 "ustr '' first item''"]
        item_facts
  by blast

text \<open>
  The claim as the specification words it fails in the ultra converter: \<open>a. first item\<close>
  at font size 12 carries a leading alphabetic marker, meets no earlier rule, and is
  classified as a paragraph.
\<close>

theorem C7_counterexample:
  "re_match ascii (rx_lettered ascii) (ustr ''a. first item'')
   \<and> ustr ''a. first item'' \<noteq> []
   \<and> (12::real) \<le> 14
   \<and> \<not> (py_isupper ascii (ustr ''a. first item'') \<and> length (ustr ''a. first item'') < 50)
   \<and> classify_text_type ascii (ustr ''a. first item'') 12 0 = Paragraph"
  by code_simp

subsection \<open>C8: the order of the emitted nodes\<close>

text \<open>
  C8. The document of a run that succeeds is the layout of its pages in order: for
  each page a page break unless it is the first, then the nodes of the page's tables,
  each table followed by its blank spacer paragraph, then the page's text nodes
  (headings and paragraphs only), which are the nodes the text stage emits for that
  page. This holds for the ultra and for the advanced converter.
\<close>

theorem C8_page_layout:
  "(ultra_preserve_formatting u (Inr pages) = Inr out
      \<longrightarrow> (\<exists>segs. list_all2 (ultra_segment u) pages segs \<and> out = layout 1 segs))
   \<and> (extract_with_tables_and_formatting u (Inr pages) = Inr out'
      \<longrightarrow> (\<exists>segs. list_all2 (adv_segment u) pages segs \<and> out' = layout 1 segs))"
  using ultra_pages_layout [of u 1 "[]" pages out] adv_pages_layout [of u 1 "[]" pages out']
  by (simp add: ultra_preserve_formatting_def extract_with_tables_and_formatting_def)

lemma ex_pages_doc: "ultra_preserve_formatting ascii (Inr ex_pages) = Inr ex_ultra_doc"
  by code_simp

theorem C8_witness:
  "ultra_preserve_formatting ascii (Inr ex_pages) = Inr ex_ultra_doc
   \<and> (\<exists>segs. list_all2 (ultra_segment ascii) ex_pages segs \<and> ex_ultra_doc = layout 1 segs)"
  using C8_page_layout [of ascii ex_pages ex_ultra_doc] ex_pages_doc
  by blast

subsection \<open>C9: a failed conversion saves nothing\<close>

text \<open>
  C9. When the conversion raises, whether on opening the file or on any page, the main
  block prints the error message and the hint and saves nothing; a file is saved only
  when the conversion has returned the document and the save itself has succeeded, and
  the file saved is that document. (The ultra script converts only after its packages
  are available.) Both scripts.
\<close>

theorem C9_failure_saves_nothing:
  "(ultra_preserve_formatting u pdf = Inl e
      \<longrightarrow> oc_saved (ultra_main u True writable pdf) = None
        \<and> oc_messages (ultra_main u True writable pdf)
            = [Msg_banner, Msg_starting, Msg_error e, Msg_hint])
   \<and> (oc_saved (ultra_main u requirements_ok writable pdf) = Some (name, doc)
      \<longrightarrow> ultra_preserve_formatting u pdf = Inr doc \<and> writable \<and> requirements_ok)
   \<and> (extract_with_tables_and_formatting u pdf = Inl e'
      \<longrightarrow> oc_saved (adv_main u writable pdf) = None
        \<and> oc_messages (adv_main u writable pdf) = [Msg_starting, Msg_error e', Msg_hint])
   \<and> (oc_saved (adv_main u writable pdf) = Some (name', doc')
      \<longrightarrow> extract_with_tables_and_formatting u pdf = Inr doc' \<and> writable)"
  by (auto simp: ultra_main_def adv_main_def py_save_def split: sum.splits if_splits)

lemma bad_pages_raise:
  "ultra_preserve_formatting ascii (Inr bad_pages) = Inl IndexError
   \<and> extract_with_tables_and_formatting ascii (Inr bad_pages) = Inl IndexError"
  by code_simp

theorem C9_witness:
  "ultra_preserve_formatting ascii (Inr bad_pages) = Inl IndexError
   \<and> oc_saved (ultra_main ascii True True (Inr bad_pages)) = None
   \<and> oc_messages (ultra_main ascii True True (Inr bad_pages))
       = [Msg_banner, Msg_starting, Msg_error IndexError, Msg_hint]
   \<and> oc_saved (adv_main ascii True (Inr bad_pages)) = None"
  using C9_failure_saves_nothing [of ascii "Inr bad_pages" IndexError True True "''PDF-Ultra-Formatted.docx''" "[]" IndexError]
        bad_pages_raise
  by blast

end
